theory Spec2Isabelle
  imports Main "HOL-Library.Word"
begin

unbundle bit_operations_syntax

section \<open>Machine types\<close>

type_synonym u8 = "8 word"
type_synonym u16 = "16 word"
type_synonym u32 = "32 word"
type_synonym u64 = "64 word"
type_synonym u128 = "128 word"

section \<open>Modular arithmetic (mod 2^64 - 8)\<close>

text \<open>
  GCC's \<^verbatim>\<open>__builtin_uaddll_overflow(x, y, &sum)\<close>: stores the wrapped sum and
  returns whether the exact sum did not fit in 64 bits. The C variable \<^verbatim>\<open>sum\<close> is
  called \<open>sum0\<close> below, since \<open>sum\<close> is a constant of HOL.
\<close>

definition uaddll_overflow :: "u64 \<Rightarrow> u64 \<Rightarrow> bool \<times> u64" where
  "uaddll_overflow x y = (2 ^ 64 \<le> unat x + unat y, x + y)"

definition add_mod_fast :: "u64 \<Rightarrow> u64 \<Rightarrow> u64" where
  "add_mod_fast x y =
     (let (ovf, sum0) = uaddll_overflow x y
      in if ovf then sum0 + 8 else sum0)"

text \<open>\<^verbatim>\<open>(uint64_t)-8\<close> is \<open>2^64 - 8\<close>, written here as the word \<open>- 8\<close>.\<close>

definition add_mod_slow_slow_path :: "u64 \<Rightarrow> u64 \<Rightarrow> u64" where
  "add_mod_slow_slow_path sum0 fixup =
     (let sum1 = (if - 8 \<le> sum0 then sum0 + 8 else sum0);
          sum2 = sum1 + fixup
      in if - 8 \<le> sum2 then sum2 + 8 else sum2)"

definition add_mod_slow :: "u64 \<Rightarrow> u64 \<Rightarrow> u64" where
  "add_mod_slow x y =
     (let (ovf, sum0) = uaddll_overflow x y;
          fixup = (if ovf then 8 else 0)
      in if sum0 < - 16 then sum0 + fixup
         else add_mod_slow_slow_path sum0 fixup)"

text \<open>
  The 128-bit product of two 64-bit values; \<^verbatim>\<open>(uint64_t)product\<close> is its low
  half, \<^verbatim>\<open>(uint64_t)(product >> 64)\<close> its high half, and \<^verbatim>\<open>8 * high\<close> is a
  64-bit multiplication.
\<close>

definition mul_mod_fast :: "u64 \<Rightarrow> u64 \<Rightarrow> u64" where
  "mul_mod_fast m x =
     (let product = (ucast m :: u128) * ucast x
      in add_mod_fast (ucast product) (8 * ucast (drop_bit 64 product)))"

definition horner_double_update :: "u64 \<Rightarrow> u64 \<Rightarrow> u64 \<Rightarrow> u64 \<Rightarrow> u64 \<Rightarrow> u64" where
  "horner_double_update acc m0 m1 x y =
     (let acc1 = add_mod_fast acc x
      in add_mod_slow (mul_mod_fast m0 acc1) (mul_mod_fast m1 y))"

section \<open>Finaliser\<close>

definition finalize :: "u64 \<Rightarrow> u64" where
  "finalize x =
     (let x1 = x XOR drop_bit 27 x
      in x1 * 0x94d049bb133111eb)"

text \<open>The finaliser as the specification words it: three steps.\<close>

definition finalize_spec :: "u64 \<Rightarrow> u64" where
  "finalize_spec x =
     (let x1 = x XOR drop_bit 27 x;
          x2 = x1 * 0x94D049BB133111EB
      in x2 XOR drop_bit 31 x2)"

section \<open>Key material and results\<close>

text \<open>
  Modelled from the spec: the constants of the header \<^verbatim>\<open>umash.h\<close>, which is not part
  of the sources. The specification fixes the PH parameter count at 32 and the Toeplitz
  shift at 4 words; the noise table covers one PH block plus the Toeplitz overlap, and a
  block is one 64-bit word per PH parameter.
\<close>

definition UMASH_PH_PARAM_COUNT :: nat where
  "UMASH_PH_PARAM_COUNT = 32"

definition UMASH_PH_TOEPLITZ_SHIFT :: nat where
  "UMASH_PH_TOEPLITZ_SHIFT = 4"

definition PH_TABLE_SIZE :: nat where
  "PH_TABLE_SIZE = UMASH_PH_PARAM_COUNT + UMASH_PH_TOEPLITZ_SHIFT"

definition BLOCK_SIZE :: nat where
  "BLOCK_SIZE = 8 * UMASH_PH_PARAM_COUNT"

text \<open>
  Modelled from the spec: the structures of the same header. The key holds two polynomial
  pairs \<^verbatim>\<open>poly[i]\<close>, each (pre-squared multiplier, base multiplier), and the noise table
  \<^verbatim>\<open>ph\<close>; a PH result is two 64-bit halves \<^verbatim>\<open>bits\<close>; a fingerprint is two digests
  \<^verbatim>\<open>hash\<close>. C arrays are lists, whose lengths the properties below state where they
  matter.
\<close>

record umash_params =
  poly :: "u64 list list"
  ph :: "u64 list"

record umash_ph =
  bits :: "u64 list"

record umash_fp =
  hash :: "u64 list"

section \<open>Memory and loads\<close>

text \<open>
  The input is read through \<^verbatim>\<open>memcpy\<close> from a \<^verbatim>\<open>const void *\<close>. Memory is a
  function from byte addresses to bytes, a pointer is an address, and every function that
  reads the input returns its value together with the list of input addresses it loaded,
  in program order. Multi-byte values are little-endian, as on the x86 target of the code.
  Values of type \<^verbatim>\<open>size_t\<close> are natural numbers (below \<open>2^64\<close> in C); where the
  code subtracts two of them the subtraction is the 64-bit one, which wraps around.
\<close>

type_synonym addr = int
type_synonym memory = "addr \<Rightarrow> u8"
type_synonym 'a traced = "'a \<times> addr list"

definition size_t_sub :: "nat \<Rightarrow> nat \<Rightarrow> nat" where
  "size_t_sub a b = unat ((word_of_nat a :: u64) - word_of_nat b)"

definition le_bytes :: "u8 list \<Rightarrow> 'a::len word" where
  "le_bytes bs = foldr (\<lambda>b acc. push_bit 8 acc OR ucast b) bs 0"

definition load_bytes :: "memory \<Rightarrow> addr \<Rightarrow> nat \<Rightarrow> u8 list traced" where
  "load_bytes mem src k =
     (map (\<lambda>j. mem (src + int j)) [0..<k], map (\<lambda>j. src + int j) [0..<k])"

definition load_u8 :: "memory \<Rightarrow> addr \<Rightarrow> u8 traced" where
  "load_u8 mem src = (let (bs, t) = load_bytes mem src 1 in (le_bytes bs, t))"

definition load_u16 :: "memory \<Rightarrow> addr \<Rightarrow> u16 traced" where
  "load_u16 mem src = (let (bs, t) = load_bytes mem src 2 in (le_bytes bs, t))"

definition load_u32 :: "memory \<Rightarrow> addr \<Rightarrow> u32 traced" where
  "load_u32 mem src = (let (bs, t) = load_bytes mem src 4 in (le_bytes bs, t))"

definition load_u64 :: "memory \<Rightarrow> addr \<Rightarrow> u64 traced" where
  "load_u64 mem src = (let (bs, t) = load_bytes mem src 8 in (le_bytes bs, t))"

definition load_u128 :: "memory \<Rightarrow> addr \<Rightarrow> u128 traced" where
  "load_u128 mem src = (let (bs, t) = load_bytes mem src 16 in (le_bytes bs, t))"

text \<open>\<^verbatim>\<open>memcpy(&k, &params[i], sizeof(k))\<close>: two consecutive noise words as one lane.\<close>

definition load_params :: "u64 list \<Rightarrow> nat \<Rightarrow> u128" where
  "load_params params i = ucast (params ! i) OR push_bit 64 (ucast (params ! (i + 1)))"

section \<open>Carry-less multiplication\<close>

text \<open>
  The x86 intrinsics, from their documented semantics: \<^verbatim>\<open>_mm_cvtsi64_si128\<close>
  zero-extends a 64-bit value to a lane; \<^verbatim>\<open>_mm_clmulepi64_si128(a, b, imm)\<close>
  multiplies, as polynomials over GF(2), the half of \<open>a\<close> chosen by bit 0 of \<open>imm\<close>
  and the half of \<open>b\<close> chosen by bit 4 of \<open>imm\<close>.
\<close>

definition mm_cvtsi64_si128 :: "u64 \<Rightarrow> u128" where
  "mm_cvtsi64_si128 a = ucast a"

definition clmul64 :: "u64 \<Rightarrow> u64 \<Rightarrow> u128" where
  "clmul64 a b =
     fold (\<lambda>i acc. if bit b i then acc XOR push_bit i (ucast a) else acc) [0..<64] 0"

definition mm_clmulepi64_si128 :: "u128 \<Rightarrow> u128 \<Rightarrow> nat \<Rightarrow> u128" where
  "mm_clmulepi64_si128 a b imm =
     clmul64 (if bit imm 0 then ucast (drop_bit 64 a) else ucast a)
             (if bit imm 4 then ucast (drop_bit 64 b) else ucast b)"

text \<open>\<^verbatim>\<open>memcpy(&ret, &acc, sizeof(ret))\<close>: the lane as its low and high halves.\<close>

definition ph_of_lane :: "u128 \<Rightarrow> umash_ph" where
  "ph_of_lane acc = \<lparr>bits = [ucast acc, ucast (drop_bit 64 acc)]\<rparr>"

section \<open>PH block compression\<close>

function ph_one_block_loop ::
  "u64 list \<Rightarrow> memory \<Rightarrow> addr \<Rightarrow> nat \<Rightarrow> u128 \<Rightarrow> u128 traced" where
  "ph_one_block_loop params mem block i acc =
     (if i < UMASH_PH_PARAM_COUNT then
        let (x, t1) = load_u128 mem block;
            k = load_params params i;
            x1 = x XOR k;
            acc1 = acc XOR mm_clmulepi64_si128 x1 x1 1;
            (r, t2) = ph_one_block_loop params mem (block + 16) (i + 2) acc1
        in (r, t1 @ t2)
      else (acc, []))"
  by pat_completeness auto
termination
  by (relation "measure (\<lambda>(params, mem, block, i, acc). UMASH_PH_PARAM_COUNT - i)") auto

declare ph_one_block_loop.simps [simp del]

definition ph_one_block :: "u64 list \<Rightarrow> u64 \<Rightarrow> memory \<Rightarrow> addr \<Rightarrow> umash_ph traced" where
  "ph_one_block params seed mem block =
     (let (acc, t) = ph_one_block_loop params mem block 0 (mm_cvtsi64_si128 seed)
      in (ph_of_lane acc, t))"

text \<open>
  The loop of \<^verbatim>\<open>ph_last_block\<close> over the full pairs; it also returns the index
  \<open>i\<close> at which it stopped, which the final pair uses.
\<close>

function ph_last_block_loop ::
  "u64 list \<Rightarrow> memory \<Rightarrow> addr \<Rightarrow> nat \<Rightarrow> nat \<Rightarrow> u128 \<Rightarrow> (u128 \<times> nat) traced" where
  "ph_last_block_loop params mem block end_full_pairs i acc =
     (if i < end_full_pairs then
        let (x, t1) = load_u128 mem block;
            k = load_params params i;
            x1 = x XOR k;
            acc1 = acc XOR mm_clmulepi64_si128 x1 x1 1;
            (r, t2) = ph_last_block_loop params mem (block + 16) end_full_pairs (i + 2) acc1
        in (r, t1 @ t2)
      else ((acc, i), []))"
  by pat_completeness auto
termination
  by (relation "measure (\<lambda>(params, mem, block, end_full_pairs, i, acc). end_full_pairs - i)")
    auto

declare ph_last_block_loop.simps [simp del]

definition ph_last_block ::
  "u64 list \<Rightarrow> u64 \<Rightarrow> memory \<Rightarrow> addr \<Rightarrow> nat \<Rightarrow> umash_ph traced" where
  "ph_last_block params seed mem block n_bytes =
     (let remaining = 1 + (size_t_sub n_bytes 1 mod 16);
          end_full_pairs = size_t_sub n_bytes remaining div 8;
          last_ptr = block + int n_bytes - 16;
          ((acc, i), t1) =
            ph_last_block_loop params mem block end_full_pairs 0 (mm_cvtsi64_si128 seed);
          (x, t2) = load_u64 mem last_ptr;
          (y, t3) = load_u64 mem (last_ptr + 8);
          x1 = x XOR params ! i;
          y1 = y XOR params ! (i + 1);
          acc1 = acc XOR mm_clmulepi64_si128 (mm_cvtsi64_si128 x1) (mm_cvtsi64_si128 y1) 0
      in (ph_of_lane acc1, t1 @ t2 @ t3))"

section \<open>Short inputs (at most 8 bytes)\<close>

text \<open>
  Loads from the local array \<^verbatim>\<open>zeros\<close> yield zero and touch no input byte, so they
  add nothing to the list of input addresses.
\<close>

definition vec_to_u64 :: "memory \<Rightarrow> addr \<Rightarrow> nat \<Rightarrow> u64 traced" where
  "vec_to_u64 mem data n_bytes =
     (let ((lo, hi), t) =
        (if 4 \<le> n_bytes then
           let (lo, t1) = load_u32 mem data;
               (hi, t2) = load_u32 mem (data + int n_bytes - 4)
           in ((lo, hi), t1 @ t2)
         else
           let (byte, t1) = (if n_bytes AND 1 \<noteq> 0 then load_u8 mem data else (0, []));
               lo = (ucast byte :: u32);
               (word, t2) = (if n_bytes AND 2 \<noteq> 0 then load_u16 mem (data + int n_bytes - 2)
                             else (0, []));
               hi = (ucast word :: u32)
           in ((lo, hi), t1 @ t2))
      in (push_bit 32 (ucast hi) OR ucast (lo + hi), t))"

definition umash_short :: "u64 list \<Rightarrow> u64 \<Rightarrow> memory \<Rightarrow> addr \<Rightarrow> nat \<Rightarrow> u64 traced" where
  "umash_short params seed mem data n_bytes =
     (let seed1 = seed + params ! n_bytes;
          (h, t) = vec_to_u64 mem data n_bytes;
          h1 = h XOR drop_bit 30 h;
          h2 = h1 * 0xbf58476d1ce4e5b9;
          h3 = (h2 XOR seed1) XOR drop_bit 27 h2;
          h4 = h3 * 0x94d049bb133111eb;
          h5 = h4 XOR drop_bit 31 h4
      in (h5, t))"

text \<open>The short path as the specification words it: the seed XORed with the noise word.\<close>

definition umash_short_spec :: "u64 list \<Rightarrow> u64 \<Rightarrow> memory \<Rightarrow> addr \<Rightarrow> nat \<Rightarrow> u64" where
  "umash_short_spec params seed mem data n_bytes =
     (let h = fst (vec_to_u64 mem data n_bytes);
          h1 = h XOR drop_bit 30 h;
          h2 = h1 * 0xBF58476D1CE4E5B9;
          h3 = (h2 XOR (seed XOR params ! n_bytes)) XOR drop_bit 27 h2;
          h4 = h3 * 0x94D049BB133111EB
      in h4 XOR drop_bit 31 h4)"

section \<open>Medium and long inputs\<close>

text \<open>
  The union \<^verbatim>\<open>acc\<close> of \<^verbatim>\<open>umash_medium\<close> is a lane read back as its two 64-bit
  halves: \<^verbatim>\<open>acc.u64[0]\<close> is the low half and \<^verbatim>\<open>acc.u64[1]\<close> the high half.
\<close>

definition umash_medium ::
  "u64 list \<Rightarrow> u64 list \<Rightarrow> u64 \<Rightarrow> memory \<Rightarrow> addr \<Rightarrow> nat \<Rightarrow> u64 traced" where
  "umash_medium multipliers ph_params seed mem data n_bytes =
     (let acc = mm_cvtsi64_si128 (seed XOR word_of_nat n_bytes);
          (x, t1) = load_u64 mem data;
          (y, t2) = load_u64 mem (data + int n_bytes - 8);
          x1 = x XOR ph_params ! 0;
          y1 = y XOR ph_params ! 1;
          acc1 = acc XOR mm_clmulepi64_si128 (mm_cvtsi64_si128 x1) (mm_cvtsi64_si128 y1) 0
      in (finalize (horner_double_update 0 (multipliers ! 0) (multipliers ! 1)
                      (ucast acc1) (ucast (drop_bit 64 acc1))),
          t1 @ t2))"

text \<open>
  The \<^verbatim>\<open>while\<close> loop of \<^verbatim>\<open>umash_long\<close> over the full blocks. It returns the
  accumulator, the advanced data pointer and the bytes that remain for the final block.
\<close>

function umash_long_loop ::
  "u64 list \<Rightarrow> u64 list \<Rightarrow> u64 \<Rightarrow> memory \<Rightarrow> addr \<Rightarrow> nat \<Rightarrow> u64 \<Rightarrow> (u64 \<times> addr \<times> nat) traced"
  where
  "umash_long_loop multipliers ph_params seed mem data n_bytes acc =
     (if BLOCK_SIZE < n_bytes then
        let (compressed, t1) = ph_one_block ph_params seed mem data;
            acc1 = horner_double_update acc (multipliers ! 0) (multipliers ! 1)
                     (bits compressed ! 0) (bits compressed ! 1);
            (r, t2) = umash_long_loop multipliers ph_params seed mem
                        (data + int BLOCK_SIZE) (n_bytes - BLOCK_SIZE) acc1
        in (r, t1 @ t2)
      else ((acc, data, n_bytes), []))"
  by pat_completeness auto
termination
  by (relation "measure (\<lambda>(multipliers, ph_params, seed, mem, data, n_bytes, acc). n_bytes)")
    (auto simp: BLOCK_SIZE_def UMASH_PH_PARAM_COUNT_def)

declare umash_long_loop.simps [simp del]

definition umash_long ::
  "u64 list \<Rightarrow> u64 list \<Rightarrow> u64 \<Rightarrow> memory \<Rightarrow> addr \<Rightarrow> nat \<Rightarrow> u64 traced" where
  "umash_long multipliers ph_params seed mem data n_bytes =
     (let ((acc, data1, n_bytes1), t1) =
            umash_long_loop multipliers ph_params seed mem data n_bytes 0;
          seed1 = seed XOR ucast (word_of_nat n_bytes1 :: u8);
          (compressed, t2) = ph_last_block ph_params seed1 mem data1 n_bytes1;
          acc1 = horner_double_update acc (multipliers ! 0) (multipliers ! 1)
                   (bits compressed ! 0) (bits compressed ! 1)
      in (finalize acc1, t1 @ t2))"

section \<open>Parameter preparation\<close>

primrec value_is_repeated :: "u64 list \<Rightarrow> nat \<Rightarrow> u64 \<Rightarrow> bool" where
  "value_is_repeated values 0 needle = False"
| "value_is_repeated values (Suc n) needle =
     (value_is_repeated values n needle \<or> values ! n = needle)"

definition modulo :: u64 where
  "modulo = push_bit 61 1 - 1"

text \<open>
  \<^verbatim>\<open>GET_RANDOM\<close> draws from the pool \<open>buf\<close> at \<open>buf_idx\<close> and makes the whole
  function return false when the pool is exhausted. The rejection-sampling loop for one
  multiplier returns \<open>None\<close> in that case, and otherwise the accepted value with the
  new pool index.
\<close>

function sample_multiplier :: "u64 list \<Rightarrow> nat \<Rightarrow> u64 \<Rightarrow> (u64 \<times> nat) option" where
  "sample_multiplier buf buf_idx f =
     (let f1 = f AND (push_bit 61 1 - 1)
      in if f1 \<noteq> 0 \<and> f1 < modulo then Some (f1, buf_idx)
         else if length buf \<le> buf_idx then None
         else sample_multiplier buf (buf_idx + 1) (buf ! buf_idx))"
  by pat_completeness auto
termination
  by (relation "measure (\<lambda>(buf, buf_idx, f). length buf - buf_idx)") auto

declare sample_multiplier.simps [simp del]

text \<open>
  The first \<^verbatim>\<open>for\<close> loop, over the polynomial pairs from index \<open>i\<close> on
  (\<^verbatim>\<open>ARRAY_SIZE(params->poly)\<close> is 2). The flag
  of the result is false when \<^verbatim>\<open>GET_RANDOM\<close> returned false; the parameters are then
  as the code left them.
\<close>

function prepare_poly ::
  "u64 list \<Rightarrow> nat \<Rightarrow> nat \<Rightarrow> umash_params \<Rightarrow> bool \<times> nat \<times> umash_params" where
  "prepare_poly buf buf_idx i params =
     (if i < 2 then
        (case sample_multiplier buf buf_idx (poly params ! i ! 1) of
           None \<Rightarrow> (False, buf_idx, params)
         | Some (f, buf_idx1) \<Rightarrow>
             let p0 = mul_mod_fast f f mod modulo;
                 params1 = params\<lparr>poly := (poly params)[i := [p0, f]]\<rparr>
             in prepare_poly buf buf_idx1 (i + 1) params1)
      else (True, buf_idx, params))"
  by pat_completeness auto
termination
  by (relation "measure (\<lambda>(buf, buf_idx, i, params). 2 - i)") auto

declare prepare_poly.simps [simp del]

text \<open>The inner \<^verbatim>\<open>while\<close> loop of the second \<^verbatim>\<open>for\<close> loop, for the noise word \<open>i\<close>.\<close>

function replace_repeated ::
  "u64 list \<Rightarrow> nat \<Rightarrow> nat \<Rightarrow> u64 list \<Rightarrow> bool \<times> nat \<times> u64 list" where
  "replace_repeated buf buf_idx i noise =
     (if value_is_repeated noise i (noise ! i) then
        (if length buf \<le> buf_idx then (False, buf_idx, noise)
         else replace_repeated buf (buf_idx + 1) i (noise[i := buf ! buf_idx]))
      else (True, buf_idx, noise))"
  by pat_completeness auto
termination
  by (relation "measure (\<lambda>(buf, buf_idx, i, noise). length buf - buf_idx)") auto

declare replace_repeated.simps [simp del]

function prepare_ph ::
  "u64 list \<Rightarrow> nat \<Rightarrow> nat \<Rightarrow> u64 list \<Rightarrow> bool \<times> u64 list" where
  "prepare_ph buf buf_idx i noise =
     (if i < PH_TABLE_SIZE then
        (case replace_repeated buf buf_idx i noise of
           (False, buf_idx1, noise1) \<Rightarrow> (False, noise1)
         | (True, buf_idx1, noise1) \<Rightarrow> prepare_ph buf buf_idx1 (i + 1) noise1)
      else (True, noise))"
  by pat_completeness auto
termination
  by (relation "measure (\<lambda>(buf, buf_idx, i, noise). PH_TABLE_SIZE - i)") auto

declare prepare_ph.simps [simp del]

definition umash_params_prepare :: "umash_params \<Rightarrow> bool \<times> umash_params" where
  "umash_params_prepare params =
     (let buf = [poly params ! 0 ! 0, poly params ! 1 ! 0]
      in case prepare_poly buf 0 0 params of
           (False, buf_idx, params1) \<Rightarrow> (False, params1)
         | (True, buf_idx, params1) \<Rightarrow>
             (case prepare_ph buf buf_idx 0 (ph params1) of
                (ok, noise) \<Rightarrow> (ok, params1\<lparr>ph := noise\<rparr>)))"

text \<open>
  The prepared-key invariants of the specification: a polynomial pair is valid when its
  base multiplier is strictly between 0 and \<open>2^61 - 1\<close> and its pre-squared slot is the
  square of the base multiplier modulo \<open>2^61 - 1\<close>; a key is prepared when both pairs are
  valid and the noise words are pairwise distinct.
\<close>

definition valid_pair :: "u64 list \<Rightarrow> bool" where
  "valid_pair pair =
     (length pair = 2 \<and> 0 < unat (pair ! 1) \<and> unat (pair ! 1) < 2 ^ 61 - 1 \<and>
      unat (pair ! 0) = (unat (pair ! 1))\<^sup>2 mod (2 ^ 61 - 1))"

definition prepared :: "umash_params \<Rightarrow> bool" where
  "prepared params =
     (length (poly params) = 2 \<and> length (ph params) = PH_TABLE_SIZE \<and>
      list_all valid_pair (poly params) \<and> distinct (ph params))"

section \<open>Public dispatch\<close>

text \<open>\<^verbatim>\<open>&params->ph[shift]\<close> is the noise table from index \<open>shift\<close> on.\<close>

definition umash_full ::
  "umash_params \<Rightarrow> u64 \<Rightarrow> int \<Rightarrow> memory \<Rightarrow> addr \<Rightarrow> nat \<Rightarrow> u64 traced" where
  "umash_full params seed which mem data n_bytes =
     (let shift = (if which = 0 then 0 else UMASH_PH_TOEPLITZ_SHIFT);
          which1 = (if which = 0 then 0 else 1 :: nat)
      in if n_bytes \<le> 16 then
           if n_bytes \<le> 8 then umash_short (drop shift (ph params)) seed mem data n_bytes
           else umash_medium (poly params ! which1) (drop shift (ph params))
                  seed mem data n_bytes
         else umash_long (poly params ! which1) (drop shift (ph params)) seed mem data n_bytes)"

text \<open>
  One \<^verbatim>\<open>for (i = 0, shift = 0; i < 2; i++, shift = toeplitz_shift)\<close> loop of
  \<^verbatim>\<open>umash_fprint\<close>, with the hash function called in its body as a parameter:
  it stores one digest per iteration in \<^verbatim>\<open>ret.hash[i]\<close>.
\<close>

function fprint_loop ::
  "(nat \<Rightarrow> nat \<Rightarrow> u64 traced) \<Rightarrow> nat \<Rightarrow> nat \<Rightarrow> umash_fp \<Rightarrow> umash_fp traced" where
  "fprint_loop body i shift ret =
     (if i < 2 then
        let (h, t1) = body i shift;
            ret1 = ret\<lparr>hash := (hash ret)[i := h]\<rparr>;
            (r, t2) = fprint_loop body (i + 1) UMASH_PH_TOEPLITZ_SHIFT ret1
        in (r, t1 @ t2)
      else (ret, []))"
  by pat_completeness auto
termination
  by (relation "measure (\<lambda>(body, i, shift, ret). 2 - i)") auto

declare fprint_loop.simps [simp del]

text \<open>The result structure is not initialised by the code; both entries are written.\<close>

definition umash_fprint ::
  "umash_params \<Rightarrow> u64 \<Rightarrow> memory \<Rightarrow> addr \<Rightarrow> nat \<Rightarrow> umash_fp traced" where
  "umash_fprint params seed mem data n_bytes =
     (let ret = \<lparr>hash = [0, 0]\<rparr>
      in if n_bytes \<le> 16 then
           if n_bytes \<le> 8 then
             fprint_loop (\<lambda>i shift.
               umash_short (drop shift (ph params)) seed mem data n_bytes) 0 0 ret
           else
             fprint_loop (\<lambda>i shift.
               umash_medium (poly params ! i) (drop shift (ph params))
                 seed mem data n_bytes) 0 0 ret
         else
           fprint_loop (\<lambda>i shift.
             umash_long (poly params ! i) (drop shift (ph params))
               seed mem data n_bytes) 0 0 ret)"

text \<open>The bytes of a list placed at address 0, for concrete inputs.\<close>

definition mem_of :: "u8 list \<Rightarrow> memory" where
  "mem_of bs = (\<lambda>a. if 0 \<le> a \<and> a < int (length bs) then bs ! nat a else 0)"

text \<open>The noise-table offset that \<^verbatim>\<open>umash_full\<close> derives from \<open>which\<close>.\<close>

definition toeplitz_shift_of :: "int \<Rightarrow> nat" where
  "toeplitz_shift_of which = (if which = 0 then 0 else UMASH_PH_TOEPLITZ_SHIFT)"

text \<open>
  The indices, within the slice of the noise table handed to one hash, of the noise words
  that the hash of an \<open>n_bytes\<close>-byte input uses, and agreement of two noise tables on
  the words at a list of indices of the slice that starts at \<open>shift\<close>.
\<close>

definition slice_indices :: "nat \<Rightarrow> nat list" where
  "slice_indices n_bytes =
     (if n_bytes \<le> 8 then [n_bytes]
      else if n_bytes \<le> 16 then [0, 1]
      else if n_bytes \<le> 256 then [0 ..< 2 * ((n_bytes - 1) div 16) + 2]
      else [0 ..< UMASH_PH_PARAM_COUNT])"

definition noise_agree :: "nat \<Rightarrow> nat list \<Rightarrow> u64 list \<Rightarrow> u64 list \<Rightarrow> bool" where
  "noise_agree shift idxs noise noise' =
     list_all (\<lambda>i. noise ! (shift + i) = noise' ! (shift + i)) idxs"

section \<open>Example keys\<close>

text \<open>
  Concrete keys for the examples below: a prepared key, the same noise table with other
  multipliers, a key whose noise table is the first one moved by the Toeplitz shift, the
  first key with noise word 4 changed, a raw key that needs both words of the pool, the
  key it is prepared to, and the first key with noise word 20 changed.
\<close>

definition example_noise :: "u64 list" where
  "example_noise =
     [1, 2, 3, 4, 5, 6, 7, 8, 9, 10, 11, 12] @
     [13, 14, 15, 16, 17, 18, 19, 20, 21, 22, 23, 24] @
     [25, 26, 27, 28, 29, 30, 31, 32, 33, 34, 35, 36]"

definition example_key :: umash_params where
  "example_key = \<lparr>poly = [[4, 2], [9, 3]], ph = example_noise\<rparr>"

definition example_key_other_poly :: umash_params where
  "example_key_other_poly = \<lparr>poly = [[25, 5], [49, 7]], ph = example_noise\<rparr>"

definition example_key_shifted :: umash_params where
  "example_key_shifted =
     \<lparr>poly = [[25, 5], [49, 7]], ph = drop 4 example_noise @ [37, 38, 39, 40]\<rparr>"

definition example_key_changed :: umash_params where
  "example_key_changed = example_key\<lparr>ph := (ph example_key)[4 := 100]\<rparr>"

definition example_raw_key :: umash_params where
  "example_raw_key =
     \<lparr>poly = [[5, 0], [77, 7]], ph = [1, 1] @ take 34 (drop 1 example_noise)\<rparr>"

definition example_prepared_key :: umash_params where
  "example_prepared_key =
     \<lparr>poly = [[25, 5], [49, 7]], ph = [1, 77] @ take 34 (drop 1 example_noise)\<rparr>"

definition example_key_far :: umash_params where
  "example_key_far = example_key\<lparr>ph := (ph example_key)[20 := 100]\<rparr>"

section \<open>Properties\<close>

subsection \<open>Arithmetic helpers\<close>

lemma mod_unique_nat: "r < M \<Longrightarrow> n = r + k * M \<Longrightarrow> n mod M = (r::nat)"
  by simp

lemma unat_u64_bound: "unat (w::u64) < 18446744073709551616"
  using unsigned_less[of w, where 'a=nat] by simp

lemma unat_u128_bound: "unat (w::u128) < 340282366920938463463374607431768211456"
  using unsigned_less[of w, where 'a=nat] by simp

lemma unat_ucast_up: "unat (ucast (m::u64) :: u128) = unat m"
proof -
  have "unat m < 2 ^ 128" using unat_u64_bound[of m] by simp
  then show ?thesis by (simp add: unsigned_ucast_eq take_bit_nat_eq_self)
qed

lemma unat_ucast_down: "unat (ucast (p::u128) :: u64) = unat p mod 2 ^ 64"
  by (simp add: unsigned_ucast_eq take_bit_eq_mod)

lemma unat_high_half: "unat (ucast (drop_bit 64 (p::u128)) :: u64) = unat p div 2 ^ 64"
proof -
  have "unat p div 2 ^ 64 < 2 ^ 64" using unat_u128_bound[of p] by simp
  then show ?thesis
    by (simp add: unsigned_ucast_eq unat_drop_bit_eq drop_bit_eq_div take_bit_nat_eq_self
        unat_div)
qed

lemma unat_full_product:
  "unat ((ucast (m::u64) :: u128) * ucast (x::u64)) = unat m * unat x"
proof -
  have "unat m * unat x \<le> 18446744073709551615 * 18446744073709551615"
    using unat_u64_bound[of m] unat_u64_bound[of x]
    by (intro mult_le_mono) simp_all
  then have "unat (ucast m :: u128) * unat (ucast x :: u128) < 2 ^ LENGTH(128)"
    by (simp add: unat_ucast_up)
  then show ?thesis
    using unat_mult_lem[of "ucast m :: u128" "ucast x"] by (simp add: unat_ucast_up)
qed

subsection \<open>Slow addition\<close>

lemma slow_add_cases:
  fixes a b :: nat
  assumes a: "a < 18446744073709551616" and b: "b < 18446744073709551616"
  shows "(if a + b < 18446744073709551600 then a + b
     else if a + b < 18446744073709551608 then a + b
     else if a + b < 18446744073709551616 then a + b - 18446744073709551608
     else if a + b < 36893488147419103216 then a + b - 18446744073709551608
     else a + b - 36893488147419103216) = (a + b) mod 18446744073709551608"
proof -
  consider "a + b < 18446744073709551608"
    | "18446744073709551608 \<le> a + b" "a + b < 36893488147419103216"
    | "36893488147419103216 \<le> a + b" by linarith
  then show ?thesis
  proof cases
    case 1 then show ?thesis by simp
  next
    case 2
    have "(a + b) mod 18446744073709551608 = a + b - 18446744073709551608"
      by (rule mod_unique_nat[where k=1]) (use 2 in simp_all)
    then show ?thesis using 2 by simp
  next
    case 3
    have "(a + b) mod 18446744073709551608 = a + b - 36893488147419103216"
      by (rule mod_unique_nat[where k=2]) (use 3 a b in simp_all)
    then show ?thesis using 3 by simp
  qed
qed

lemma add_mod_slow_unat: "unat (add_mod_slow x y) = (unat x + unat y) mod (2 ^ 64 - 8)"
proof -
  define a where "a = unat x"
  define b where "b = unat y"
  have a: "a < 18446744073709551616" using unat_u64_bound[of x] by (simp add: a_def)
  have b: "b < 18446744073709551616" using unat_u64_bound[of y] by (simp add: b_def)
  have "unat (add_mod_slow x y) = (if a + b < 18446744073709551600 then a + b
     else if a + b < 18446744073709551608 then a + b
     else if a + b < 18446744073709551616 then a + b - 18446744073709551608
     else if a + b < 36893488147419103216 then a + b - 18446744073709551608
     else a + b - 36893488147419103216)"
    unfolding add_mod_slow_def add_mod_slow_slow_path_def uaddll_overflow_def Let_def
    using a b
    apply (simp add: word_le_nat_alt word_less_nat_alt unat_plus_if' a_def[symmetric]
        b_def[symmetric])
    apply linarith
    done
  then show ?thesis using slow_add_cases[OF a b] by (simp add: a_def b_def)
qed

text \<open>
  C6. For all 64-bit \<open>x\<close> and \<open>y\<close>, \<open>add_mod_slow x y\<close> is congruent to \<open>x + y\<close>
  modulo \<open>2^64 - 8\<close> and is strictly less than \<open>2^64 - 8\<close>; this includes the sums in
  \<open>[2^64 - 16, 2^64 - 1]\<close> that take the slow path. Both parts say that the result is
  the canonical residue of the exact sum.
\<close>

theorem add_mod_slow_correct:
  "unat (add_mod_slow x y) mod (2 ^ 64 - 8) = (unat x + unat y) mod (2 ^ 64 - 8) \<and>
   unat (add_mod_slow x y) < 2 ^ 64 - 8 \<and>
   unat (add_mod_slow x y) = (unat x + unat y) mod (2 ^ 64 - 8)"
  by (simp add: add_mod_slow_unat)

subsection \<open>Fast multiplication\<close>

lemma add_mod_fast_unat:
  assumes "unat y \<le> 18446744073709551608"
  shows "unat (add_mod_fast x y) =
     (if unat x + unat y < 18446744073709551616 then unat x + unat y
      else unat x + unat y - 18446744073709551608)"
  unfolding add_mod_fast_def uaddll_overflow_def Let_def
  using unat_u64_bound[of x] assms
  by (simp add: unat_plus_if')

lemma mod_mult_fold: "(a + h * (K mod M)) mod M = (a + h * K) mod (M::nat)"
  by (intro mod_add_cong refl mod_mult_right_eq)

lemma mul_mod_fast_unat_mod:
  assumes "unat m * unat x < 2 ^ 125"
  shows "unat (mul_mod_fast m x) mod (2 ^ 64 - 8) = (unat m * unat x) mod (2 ^ 64 - 8)"
proof -
  define P where "P = unat m * unat x"
  define lo where "lo = P mod 2 ^ 64"
  define hi where "hi = P div 2 ^ 64"
  have P: "P = hi * 18446744073709551616 + lo" by (simp add: lo_def hi_def)
  have lo: "lo < 18446744073709551616" by (simp add: lo_def)
  have hi: "hi < 2305843009213693952"
    using assms by (simp add: hi_def P_def less_mult_imp_div_less)
  have uhi: "unat (ucast (drop_bit 64 ((ucast m :: u128) * ucast x)) :: u64) = hi"
    by (simp only: unat_high_half unat_full_product hi_def P_def)
  have u8hi: "unat (8 * ucast (drop_bit 64 ((ucast m :: u128) * ucast x)) :: u64) = 8 * hi"
    using hi by (simp add: unat_word_ariths(2) uhi)
  have ulo: "unat (ucast ((ucast m :: u128) * ucast x) :: u64) = lo"
    by (simp add: unat_ucast_down unat_full_product lo_def P_def)
  have r: "unat (mul_mod_fast m x) =
      (if lo + 8 * hi < 18446744073709551616 then lo + 8 * hi
       else lo + 8 * hi - 18446744073709551608)"
  proof -
    have "unat (8 * ucast (drop_bit 64 ((ucast m :: u128) * ucast x)) :: u64)
        \<le> 18446744073709551608"
      using hi by (simp add: u8hi)
    from add_mod_fast_unat[OF this, of "ucast ((ucast m :: u128) * ucast x)"]
    show ?thesis by (simp add: mul_mod_fast_def Let_def u8hi ulo)
  qed
  have "unat (mul_mod_fast m x) mod 18446744073709551608
      = (lo + 8 * hi) mod 18446744073709551608"
  proof (cases "lo + 8 * hi < 18446744073709551616")
    case True then show ?thesis using r by simp
  next
    case False
    then have "unat (mul_mod_fast m x) = lo + 8 * hi - 18446744073709551608"
      using r lo hi by simp
    moreover have "(lo + 8 * hi) mod 18446744073709551608
        = (lo + 8 * hi - 18446744073709551608) mod 18446744073709551608"
      by (rule le_mod_geq) (use False in simp)
    ultimately show ?thesis by simp
  qed
  also have "\<dots> = (lo + hi * 8) mod 18446744073709551608" by (simp add: mult.commute)
  also have "\<dots> = (lo + hi * 18446744073709551616) mod 18446744073709551608"
    using mod_mult_fold[of lo hi 18446744073709551616 18446744073709551608] by simp
  finally show ?thesis using P by (simp add: P_def add.commute)
qed

text \<open>
  C7 as stated fails: for \<open>m = x = 2^63\<close> the high half of the product is \<open>2^62\<close>,
  \<open>8 * high\<close> wraps to 0 in 64 bits and nothing corrects that wrap; the code returns 0,
  while \<open>2^126\<close> is congruent to 16 modulo \<open>2^64 - 8\<close>.
\<close>

theorem mul_mod_fast_counterexample:
  "unat (mul_mod_fast (2 ^ 63) (2 ^ 63)) mod (2 ^ 64 - 8)
     \<noteq> (unat (2 ^ 63 :: u64) * unat (2 ^ 63 :: u64)) mod (2 ^ 64 - 8)"
  by (simp add: mul_mod_fast_def add_mod_fast_def uaddll_overflow_def)

text \<open>
  C7, amended. For all 64-bit \<open>m\<close> and \<open>x\<close> whose exact product is below \<open>2^125\<close>
  (so that the high half is below \<open>2^61\<close> and \<open>8 * high\<close> does not wrap; in particular
  whenever \<open>m < 2^61\<close>, as every prepared multiplier is), \<open>mul_mod_fast m x\<close> is
  congruent to the integer product \<open>m * x\<close> modulo \<open>2^64 - 8\<close>.
\<close>

theorem mul_mod_fast_congruent:
  "unat m * unat x < 2 ^ 125 \<Longrightarrow>
   unat (mul_mod_fast m x) mod (2 ^ 64 - 8) = (unat m * unat x) mod (2 ^ 64 - 8)"
  by (rule mul_mod_fast_unat_mod)

theorem mul_mod_fast_congruent_witness:
  "unat (2 ^ 60 :: u64) * unat (2 ^ 64 - 1 :: u64) < 2 ^ 125 \<and>
   unat (mul_mod_fast (2 ^ 60) (2 ^ 64 - 1)) mod (2 ^ 64 - 8)
     = (unat (2 ^ 60 :: u64) * unat (2 ^ 64 - 1 :: u64)) mod (2 ^ 64 - 8)"
proof -
  have h: "unat (2 ^ 60 :: u64) * unat (2 ^ 64 - 1 :: u64) < 2 ^ 125" by simp
  show ?thesis using h mul_mod_fast_congruent[OF h] by simp
qed

subsection \<open>Finaliser\<close>

text \<open>
  C1 as stated fails: the finaliser of the code stops after the multiplication and has no
  final xorshift by 31. At \<open>x = 1\<close> the code returns the multiplier itself.
\<close>

theorem finalize_counterexample: "finalize 1 \<noteq> finalize_spec 1"
  by (simp add: finalize_def finalize_spec_def)

text \<open>
  C1, amended. For every 64-bit \<open>x\<close> the finaliser computes \<open>x XOR (x >> 27)\<close>, then
  multiplies by 0x94D049BB133111EB modulo \<open>2^64\<close>, and returns that result (two steps:
  xorshift 27, multiply); the three-step sequence of the specification is this result
  followed by one more xorshift by 31, which the code does not apply.
\<close>

theorem finalize_two_steps:
  "finalize x = (x XOR drop_bit 27 x) * 0x94D049BB133111EB \<and>
   unat (finalize x) = (unat (x XOR drop_bit 27 x) * 0x94D049BB133111EB) mod 2 ^ 64 \<and>
   finalize_spec x = finalize x XOR drop_bit 31 (finalize x)"
  by (simp add: finalize_def finalize_spec_def Let_def unat_word_ariths(2))

subsection \<open>Bytes loaded by the short path\<close>

lemma load_bytes_trace: "snd (load_bytes mem src k) = map (\<lambda>j. src + int j) [0..<k]"
  by (simp add: load_bytes_def)

lemma load_traces:
  "snd (load_u8 mem src) = map (\<lambda>j. src + int j) [0..<1]"
  "snd (load_u16 mem src) = map (\<lambda>j. src + int j) [0..<2]"
  "snd (load_u32 mem src) = map (\<lambda>j. src + int j) [0..<4]"
  "snd (load_u64 mem src) = map (\<lambda>j. src + int j) [0..<8]"
  "snd (load_u128 mem src) = map (\<lambda>j. src + int j) [0..<16]"
  by (simp_all add: load_u8_def load_u16_def load_u32_def load_u64_def load_u128_def
      load_bytes_def)

lemma vec_to_u64_trace:
  "snd (vec_to_u64 mem data n_bytes) =
     (if 4 \<le> n_bytes then
        map (\<lambda>j. data + int j) [0..<4] @ map (\<lambda>j. data + int n_bytes - 4 + int j) [0..<4]
      else (if n_bytes AND 1 \<noteq> 0 then map (\<lambda>j. data + int j) [0..<1] else []) @
           (if n_bytes AND 2 \<noteq> 0 then map (\<lambda>j. data + int n_bytes - 2 + int j) [0..<2]
            else []))"
  by (simp add: vec_to_u64_def Let_def case_prod_beta load_traces)

lemma short_lengths: "(n::nat) \<le> 8 \<Longrightarrow> n \<in> set [0, 1, 2, 3, 4, 5, 6, 7, 8]"
  by (simp, arith)

text \<open>
  C9. For every \<open>n\<close> in \<open>[0, 8]\<close> the byte decoder of the short path loads only
  addresses of the input bytes \<open>[0, n)\<close>, never before the start and never past the end;
  and for \<open>n\<close> in \<open>{0, 1, 2, 3}\<close> the addresses it loads are exactly the \<open>n\<close> input
  bytes, each one once.
\<close>

theorem vec_to_u64_reads_in_bounds:
  assumes "n_bytes \<le> 8"
  shows "set (snd (vec_to_u64 mem data n_bytes)) \<subseteq> {data ..< data + int n_bytes} \<and>
         (n_bytes \<le> 3 \<longrightarrow>
            snd (vec_to_u64 mem data n_bytes) = map (\<lambda>j. data + int j) [0..<n_bytes])"
proof -
  have "list_all (\<lambda>n. set (snd (vec_to_u64 mem data n)) \<subseteq> {data ..< data + int n} \<and>
          (n \<le> 3 \<longrightarrow> snd (vec_to_u64 mem data n) = map (\<lambda>j. data + int j) [0..<n]))
        [0, 1, 2, 3, 4, 5, 6, 7, 8]"
    by (simp add: vec_to_u64_trace upt_rec)
  then show ?thesis
    using short_lengths[OF assms] unfolding list_all_iff by blast
qed

theorem vec_to_u64_reads_in_bounds_witness:
  "(3::nat) \<le> 8 \<and> (3::nat) \<le> 3 \<and>
   set (snd (vec_to_u64 (mem_of [1, 2, 3]) 0 3)) \<subseteq> {0 ..< 0 + int 3} \<and>
   snd (vec_to_u64 (mem_of [1, 2, 3]) 0 3) = map (\<lambda>j. 0 + int j) [0..<3]"
proof -
  have h: "(3::nat) \<le> 8" by simp
  have h3: "(3::nat) \<le> 3" by simp
  note t = vec_to_u64_reads_in_bounds[OF h, of "mem_of [1, 2, 3]" 0]
  show ?thesis using h h3 t by blast
qed

subsection \<open>Short path: the seed and the noise word\<close>

lemma xorshift31_inverse:
  fixes x :: u64
  shows "(x XOR drop_bit 31 x) XOR drop_bit 31 (x XOR drop_bit 31 x)
           XOR drop_bit 62 (x XOR drop_bit 31 x) = x"
  by (rule bit_word_eqI) (auto simp: bit_simps)

lemma xorshift31_inj:
  fixes x y :: u64
  assumes "x XOR drop_bit 31 x = y XOR drop_bit 31 y"
  shows "x = y"
  using xorshift31_inverse[of x] xorshift31_inverse[of y] assms by simp

lemma mult_stafford_inj:
  fixes x y :: u64
  assumes "x * 0x94d049bb133111eb = y * 0x94d049bb133111eb"
  shows "x = y"
proof -
  have inv: "(0x94d049bb133111eb :: u64) * 0x319642b2d24d8ec3 = 1" by simp
  have "x = x * (0x94d049bb133111eb * 0x319642b2d24d8ec3)" by (simp only: inv mult_1_right)
  also have "\<dots> = (x * 0x94d049bb133111eb) * 0x319642b2d24d8ec3" by (simp only: mult.assoc)
  also have "\<dots> = (y * 0x94d049bb133111eb) * 0x319642b2d24d8ec3" by (simp only: assms)
  also have "\<dots> = y * (0x94d049bb133111eb * 0x319642b2d24d8ec3)" by (simp only: mult.assoc)
  also have "\<dots> = y" by (simp only: inv mult_1_right)
  finally show ?thesis .
qed

lemma xor_right_cancel_u64: "(x XOR c = y XOR c) = (x = (y::u64))"
proof
  assume "x XOR c = y XOR c"
  then have "(x XOR c) XOR c = (y XOR c) XOR c" by simp
  then show "x = y" by (simp add: xor.assoc)
qed simp

lemma xor_cancel_mid:
  fixes a s s' b :: u64
  shows "((a XOR s) XOR b = (a XOR s') XOR b) = (s = s')"
proof -
  have "((a XOR s) XOR b = (a XOR s') XOR b) = (a XOR s = a XOR s')"
    by (rule xor_right_cancel_u64)
  also have "\<dots> = (s XOR a = s' XOR a)" by (simp add: xor.commute)
  also have "\<dots> = (s = s')" by (rule xor_right_cancel_u64)
  finally show ?thesis .
qed

lemma umash_short_value:
  "fst (umash_short params seed mem data n_bytes) =
     (let h = fst (vec_to_u64 mem data n_bytes);
          h2 = (h XOR drop_bit 30 h) * 0xbf58476d1ce4e5b9;
          h4 = ((h2 XOR (seed + params ! n_bytes)) XOR drop_bit 27 h2) * 0x94d049bb133111eb
      in h4 XOR drop_bit 31 h4)"
  by (simp add: umash_short_def Let_def split: prod.splits)

text \<open>
  C2 as stated fails: the code adds the noise word to the seed, it does not XOR them. With
  seed 1 and noise word 1 at index 0 the XOR is 0 and the sum is 2, and the two digests of
  the empty input differ.
\<close>

theorem umash_short_counterexample:
  "fst (umash_short [1] 1 (mem_of []) 0 0) \<noteq> umash_short_spec [1] 1 (mem_of []) 0 0"
  by (simp add: umash_short_def umash_short_spec_def vec_to_u64_def Let_def)

text \<open>
  C2, amended. For every input length \<open>n\<close> in \<open>[0, 8]\<close>, key, seed and input bytes,
  the value that the short path's mixer injects in the middle of the mixing sequence is
  the 64-bit sum (modulo \<open>2^64\<close>) of the seed and the noise word at index \<open>n\<close>: the
  digest is the mixer of the decoded bytes and \<open>seed + noise[n]\<close>, and on the same input
  bytes two calls return the same digest exactly when their sums \<open>seed + noise[n]\<close>
  agree.
\<close>

theorem umash_short_binds_sum:
  assumes "n_bytes \<le> 8"
  shows "fst (umash_short params seed mem data n_bytes) =
     (let h = fst (vec_to_u64 mem data n_bytes);
          h2 = (h XOR drop_bit 30 h) * 0xbf58476d1ce4e5b9;
          h4 = ((h2 XOR (seed + params ! n_bytes)) XOR drop_bit 27 h2) * 0x94d049bb133111eb
      in h4 XOR drop_bit 31 h4) \<and>
   ((fst (umash_short params seed mem data n_bytes)
      = fst (umash_short params' seed' mem data n_bytes))
    = (seed + params ! n_bytes = seed' + params' ! n_bytes))"
proof (intro conjI iffI)
  show "fst (umash_short params seed mem data n_bytes) =
     (let h = fst (vec_to_u64 mem data n_bytes);
          h2 = (h XOR drop_bit 30 h) * 0xbf58476d1ce4e5b9;
          h4 = ((h2 XOR (seed + params ! n_bytes)) XOR drop_bit 27 h2) * 0x94d049bb133111eb
      in h4 XOR drop_bit 31 h4)"
    by (rule umash_short_value)
next
  assume "fst (umash_short params seed mem data n_bytes)
      = fst (umash_short params' seed' mem data n_bytes)"
  then show "seed + params ! n_bytes = seed' + params' ! n_bytes"
    unfolding umash_short_value Let_def
    by (auto dest!: xorshift31_inj mult_stafford_inj simp: xor_cancel_mid)
next
  assume "seed + params ! n_bytes = seed' + params' ! n_bytes"
  then show "fst (umash_short params seed mem data n_bytes)
      = fst (umash_short params' seed' mem data n_bytes)"
    by (simp add: umash_short_value)
qed

theorem umash_short_binds_sum_witness:
  "(3::nat) \<le> 8 \<and> (7::u64) + [9, 9, 9, 5] ! 3 = 10 + [0, 0, 0, 2] ! 3 \<and>
   fst (umash_short [9, 9, 9, 5] 7 (mem_of [1, 2, 3]) 0 3)
     = fst (umash_short [0, 0, 0, 2] 10 (mem_of [1, 2, 3]) 0 3)"
proof -
  have h: "(3::nat) \<le> 8" by simp
  have e: "(7::u64) + [9, 9, 9, 5] ! 3 = 10 + [0, 0, 0, 2] ! 3" by simp
  note t = umash_short_binds_sum[OF h, of "[9, 9, 9, 5]" 7 "mem_of [1, 2, 3]" 0
      "[0, 0, 0, 2]" 10]
  show ?thesis using h e t by blast
qed

subsection \<open>Fingerprint\<close>

lemma fprint_loop_unrolled:
  "fprint_loop body 0 0 ret =
     (let (h0, t0) = body 0 0;
          (h1, t1) = body 1 UMASH_PH_TOEPLITZ_SHIFT
      in (ret\<lparr>hash := (hash ret)[0 := h0, 1 := h1]\<rparr>, t0 @ t1))"
proof -
  have s2: "fprint_loop body (Suc (Suc 0)) s r = (r, [])" for s r
    by (subst fprint_loop.simps) simp
  have s1: "fprint_loop body (Suc 0) s r =
      (let (h1, t1) = body 1 s in (r\<lparr>hash := (hash r)[1 := h1]\<rparr>, t1))" for s r
    by (subst fprint_loop.simps) (simp add: s2 Let_def split: prod.splits)
  show ?thesis
    by (subst fprint_loop.simps) (simp add: s1 Let_def split: prod.splits)
qed

text \<open>
  C5. For every key, seed, input and length, the fingerprint is the ordered pair of the
  two single hashes: its first digest is \<open>umash_full\<close> with \<open>which = 0\<close> and its
  second digest is \<open>umash_full\<close> with \<open>which = 1\<close>; the bytes it loads are those of
  the first hash followed by those of the second.
\<close>

theorem umash_fprint_is_pair:
  "fst (umash_fprint params seed mem data n_bytes) =
     \<lparr>hash = [fst (umash_full params seed 0 mem data n_bytes),
              fst (umash_full params seed 1 mem data n_bytes)]\<rparr> \<and>
   snd (umash_fprint params seed mem data n_bytes) =
     snd (umash_full params seed 0 mem data n_bytes) @
     snd (umash_full params seed 1 mem data n_bytes)"
  by (simp add: umash_fprint_def umash_full_def fprint_loop_unrolled Let_def
      split: prod.splits)

subsection \<open>Bytes loaded by the last-block PH variant\<close>

lemma ph_last_block_loop_trace:
  "set (snd (ph_last_block_loop params mem block e i acc))
     \<subseteq> {block ..< block + 16 * int ((e - i + 1) div 2)}"
proof (induction params mem block e i acc rule: ph_last_block_loop.induct)
  case (1 params mem block e i acc)
  show ?case
  proof (cases "i < e")
    case False
    then show ?thesis by (subst ph_last_block_loop.simps) simp
  next
    case True
    define x1 where "x1 = fst (load_u128 mem block) XOR load_params params i"
    define acc1 where "acc1 = acc XOR mm_clmulepi64_si128 x1 x1 1"
    have ih: "set (snd (ph_last_block_loop params mem (block + 16) e (i + 2) acc1))
        \<subseteq> {block + 16 ..< block + 16 + 16 * int ((e - (i + 2) + 1) div 2)}"
      using "1.IH"[OF True prod.collapse refl refl refl]
      by (simp add: x1_def acc1_def)
    have m: "int ((e - i + 1) div 2) = 1 + int ((e - (i + 2) + 1) div 2)"
      using True by (simp, arith)
    have unf: "snd (ph_last_block_loop params mem block e i acc) =
        snd (load_u128 mem block) @
        snd (ph_last_block_loop params mem (block + 16) e (i + 2) acc1)"
      using True
      by (subst ph_last_block_loop.simps)
        (simp add: Let_def case_prod_beta x1_def acc1_def)
    show ?thesis
    proof -
      have "set (snd (load_u128 mem block)) \<subseteq> {block ..< block + 16}"
        by (auto simp: load_traces(5))
      then show ?thesis unfolding unf m using ih by auto
    qed
  qed
qed

lemma size_t_sub_exact: "b \<le> a \<Longrightarrow> a < 2 ^ 64 \<Longrightarrow> size_t_sub a b = a - b"
proof -
  assume ba: "b \<le> a" and a: "a < 2 ^ 64"
  then have b: "b < 2 ^ 64" by simp
  have le: "(word_of_nat b :: u64) \<le> word_of_nat a"
    using ba a b by (simp add: word_le_nat_alt unat_of_nat take_bit_nat_eq_self)
  show ?thesis
    using a b by (simp add: size_t_sub_def unat_sub[OF le] unat_of_nat take_bit_nat_eq_self)
qed

lemma ph_last_block_trace:
  "snd (ph_last_block params seed mem block n_bytes) =
     snd (ph_last_block_loop params mem block
            (size_t_sub n_bytes (1 + size_t_sub n_bytes 1 mod 16) div 8) 0
            (mm_cvtsi64_si128 seed)) @
     map (\<lambda>j. block + int n_bytes - 16 + int j) [0..<8] @
     map (\<lambda>j. block + int n_bytes - 16 + 8 + int j) [0..<8]"
  by (simp add: ph_last_block_def Let_def case_prod_beta load_traces)

lemma ph_last_block_trace_bounds:
  assumes "1 \<le> n_bytes" and "n_bytes \<le> 256"
  shows "set (snd (ph_last_block params seed mem block n_bytes))
           \<subseteq> {block + min 0 (int n_bytes - 16) ..< block + int n_bytes} \<and>
         block + int n_bytes - 16 \<in> set (snd (ph_last_block params seed mem block n_bytes))"
proof -
  define r where "r = 1 + (n_bytes - 1) mod 16"
  define e where "e = (n_bytes - r) div 8"
  have s1: "size_t_sub n_bytes 1 = n_bytes - 1"
    using assms by (intro size_t_sub_exact) simp_all
  have rn: "r \<le> n_bytes" using assms unfolding r_def by arith
  have s2: "size_t_sub n_bytes r = n_bytes - r"
    using assms rn by (intro size_t_sub_exact) simp_all
  have dm: "16 * ((n_bytes - 1) div 16) + (n_bytes - 1) mod 16 = n_bytes - 1"
    by (rule mult_div_mod_eq)
  have q: "n_bytes - r = 16 * ((n_bytes - 1) div 16)"
    unfolding r_def using dm assms by linarith
  have e2: "e = 2 * ((n_bytes - 1) div 16)"
    unfolding e_def q by simp
  have "(e - 0 + 1) div 2 = (n_bytes - 1) div 16"
    unfolding e2 by simp
  moreover have "16 * ((n_bytes - 1) div 16) \<le> n_bytes"
    using dm by linarith
  ultimately have e: "16 * int ((e - 0 + 1) div 2) \<le> int n_bytes"
    by simp
  have loop: "set (snd (ph_last_block_loop params mem block e 0 (mm_cvtsi64_si128 seed)))
      \<subseteq> {block ..< block + int n_bytes}"
    using ph_last_block_loop_trace[of params mem block e 0 "mm_cvtsi64_si128 seed"] e
    by auto
  have tr: "snd (ph_last_block params seed mem block n_bytes) =
     snd (ph_last_block_loop params mem block e 0 (mm_cvtsi64_si128 seed)) @
     map (\<lambda>j. block + int n_bytes - 16 + int j) [0..<8] @
     map (\<lambda>j. block + int n_bytes - 16 + 8 + int j) [0..<8]"
    unfolding ph_last_block_trace s1 r_def[symmetric] s2 e_def[symmetric] ..
  have lo: "{block ..< block + int n_bytes}
      \<subseteq> {block + min 0 (int n_bytes - 16) ..< block + int n_bytes}"
    by auto
  have x: "set (map (\<lambda>j. block + int n_bytes - 16 + int j) [0..<8])
      \<subseteq> {block + min 0 (int n_bytes - 16) ..< block + int n_bytes}"
    by auto
  have y: "set (map (\<lambda>j. block + int n_bytes - 16 + 8 + int j) [0..<8])
      \<subseteq> {block + min 0 (int n_bytes - 16) ..< block + int n_bytes}"
    by auto
  have first: "block + int n_bytes - 16
      \<in> set (map (\<lambda>j. block + int n_bytes - 16 + int j) [0..<8])"
    by (simp add: upt_rec)
  show ?thesis
    unfolding tr set_append using loop lo x y first by blast
qed


text \<open>
  C3 as stated fails: for a block of one byte the trailing 16-byte region starts at offset
  \<open>1 - 16 = -15\<close>, so the bytes at offsets \<open>-15\<close> to \<open>-1\<close> are loaded, before the
  start of the block.
\<close>

theorem ph_last_block_counterexample:
  "\<not> set (snd (ph_last_block (replicate 36 0) 0 (mem_of [7]) 0 1)) \<subseteq> {0 ..< 1}"
proof -
  have "- 15 \<in> set (snd (ph_last_block (replicate 36 0) 0 (mem_of [7]) 0 1))"
    by (simp add: ph_last_block_trace upt_rec)
  then show ?thesis by auto
qed

text \<open>
  C3, amended. For every block and every byte count \<open>n\<close> in \<open>[1, 256]\<close>, every byte
  offset that the last-block PH variant loads lies in \<open>[min(0, n - 16), n)\<close>: no load is
  at or past offset \<open>n\<close>, the leading full pairs lie in \<open>[0, n)\<close>, and the trailing
  16-byte region is read from offset \<open>n - 16\<close>, which is inside \<open>[0, n)\<close> when
  \<open>n \<ge> 16\<close> and starts before offset 0 when \<open>n < 16\<close>.
\<close>

theorem ph_last_block_reads:
  assumes "1 \<le> n_bytes" and "n_bytes \<le> 256"
  shows "set (snd (ph_last_block params seed mem block n_bytes))
           \<subseteq> {block + min 0 (int n_bytes - 16) ..< block + int n_bytes} \<and>
         block + int n_bytes - 16 \<in> set (snd (ph_last_block params seed mem block n_bytes))"
  using assms by (rule ph_last_block_trace_bounds)

theorem ph_last_block_reads_witness:
  "(1::nat) \<le> 5 \<and> (5::nat) \<le> 256 \<and>
   set (snd (ph_last_block (replicate 36 0) 0 (mem_of [1, 2, 3, 4, 5]) 0 5))
     \<subseteq> {0 + min 0 (int 5 - 16) ..< 0 + int 5} \<and>
   0 + int 5 - 16 \<in> set (snd (ph_last_block (replicate 36 0) 0 (mem_of [1, 2, 3, 4, 5]) 0 5))"
proof -
  have h1: "(1::nat) \<le> 5" and h2: "(5::nat) \<le> 256" by simp_all
  note t = ph_last_block_reads[OF h1 h2, of "replicate 36 0" 0 "mem_of [1, 2, 3, 4, 5]" 0]
  show ?thesis using h1 h2 t by blast
qed

subsection \<open>Short inputs and the polynomial key\<close>

lemmas example_sizes = PH_TABLE_SIZE_def UMASH_PH_PARAM_COUNT_def UMASH_PH_TOEPLITZ_SHIFT_def

lemma umash_short_noise_word:
  "params ! n_bytes = params' ! n_bytes \<Longrightarrow>
   umash_short params seed mem data n_bytes = umash_short params' seed mem data n_bytes"
  by (simp add: umash_short_def)

lemma umash_full_short:
  "n_bytes \<le> 8 \<Longrightarrow>
   umash_full params seed which mem data n_bytes =
     umash_short (drop (toeplitz_shift_of which) (ph params)) seed mem data n_bytes"
  by (simp add: umash_full_def toeplitz_shift_of_def Let_def)

text \<open>
  C10. For every input length \<open>n\<close> in \<open>[0, 8]\<close> the digest of \<open>umash_full\<close> does
  not depend on the polynomial key material: two keys with identical noise tables give the
  same digest for every seed, every \<open>which\<close> and every input; and \<open>which\<close> matters
  only through the noise word it selects (index \<open>n\<close>, or Toeplitz shift plus \<open>n\<close>):
  two calls whose selected noise words are equal give the same digest.
\<close>

theorem umash_full_short_ignores_poly:
  assumes "n_bytes \<le> 8"
    and "length (ph k) = PH_TABLE_SIZE" and "length (ph k') = PH_TABLE_SIZE"
  shows "(ph k = ph k' \<longrightarrow>
           umash_full k seed which mem data n_bytes
             = umash_full k' seed which mem data n_bytes) \<and>
         (ph k ! (toeplitz_shift_of which + n_bytes)
            = ph k' ! (toeplitz_shift_of which' + n_bytes) \<longrightarrow>
           umash_full k seed which mem data n_bytes
             = umash_full k' seed which' mem data n_bytes)"
proof (intro conjI impI)
  assume "ph k = ph k'"
  then show "umash_full k seed which mem data n_bytes
      = umash_full k' seed which mem data n_bytes"
    using assms(1) by (simp add: umash_full_short)
next
  assume eq: "ph k ! (toeplitz_shift_of which + n_bytes)
      = ph k' ! (toeplitz_shift_of which' + n_bytes)"
  have le: "toeplitz_shift_of w \<le> PH_TABLE_SIZE" for w
    by (simp add: toeplitz_shift_of_def PH_TABLE_SIZE_def UMASH_PH_TOEPLITZ_SHIFT_def)
  have "drop (toeplitz_shift_of which) (ph k) ! n_bytes
      = drop (toeplitz_shift_of which') (ph k') ! n_bytes"
    using eq le[of which] le[of which'] assms(2,3) by (simp add: nth_drop)
  then show "umash_full k seed which mem data n_bytes
      = umash_full k' seed which' mem data n_bytes"
    unfolding umash_full_short[OF assms(1)] by (rule umash_short_noise_word)
qed

theorem umash_full_short_ignores_poly_witness:
  "(3::nat) \<le> 8 \<and> length (ph example_key) = PH_TABLE_SIZE \<and>
   length (ph example_key_other_poly) = PH_TABLE_SIZE \<and>
   length (ph example_key_shifted) = PH_TABLE_SIZE \<and>
   ph example_key = ph example_key_other_poly \<and>
   ph example_key ! (toeplitz_shift_of 1 + 3) = ph example_key_shifted ! (toeplitz_shift_of 0 + 3) \<and>
   umash_full example_key 5 0 (mem_of [1, 2, 3]) 0 3
     = umash_full example_key_other_poly 5 0 (mem_of [1, 2, 3]) 0 3 \<and>
   umash_full example_key 5 1 (mem_of [1, 2, 3]) 0 3
     = umash_full example_key_shifted 5 0 (mem_of [1, 2, 3]) 0 3"
proof -
  have n: "(3::nat) \<le> 8" by simp
  have l1: "length (ph example_key) = PH_TABLE_SIZE"
    and l2: "length (ph example_key_other_poly) = PH_TABLE_SIZE"
    and l3: "length (ph example_key_shifted) = PH_TABLE_SIZE"
    by (simp_all add: example_key_def example_key_other_poly_def example_key_shifted_def
        example_noise_def example_sizes)
  have same: "ph example_key = ph example_key_other_poly"
    by (simp add: example_key_def example_key_other_poly_def)
  have word: "ph example_key ! (toeplitz_shift_of 1 + 3)
      = ph example_key_shifted ! (toeplitz_shift_of 0 + 3)"
    by (simp add: example_key_def example_key_shifted_def example_noise_def
        toeplitz_shift_of_def example_sizes)
  note a = umash_full_short_ignores_poly[OF n l1 l2, of 5 0 "mem_of [1, 2, 3]" 0 0]
  note b = umash_full_short_ignores_poly[OF n l1 l3, of 5 1 "mem_of [1, 2, 3]" 0 0]
  show ?thesis
    using n l1 l2 l3 same word a b by blast
qed

subsection \<open>Parameter preparation\<close>

lemma unat_modulo: "unat modulo = 2305843009213693951"
  by (simp add: modulo_def)

lemma sample_multiplier_Some:
  "sample_multiplier buf buf_idx f = Some (f1, buf_idx1) \<Longrightarrow> f1 \<noteq> 0 \<and> f1 < modulo"
proof (induction buf buf_idx f rule: sample_multiplier.induct)
  case (1 buf buf_idx f)
  show ?case
  proof (cases "f AND (push_bit 61 1 - 1) \<noteq> 0 \<and> f AND (push_bit 61 1 - 1) < modulo")
    case True
    then show ?thesis
      using "1.prems" by (subst (asm) sample_multiplier.simps) (auto simp: Let_def)
  next
    case False
    then have "\<not> length buf \<le> buf_idx"
      using "1.prems" by (subst (asm) sample_multiplier.simps) (auto simp: Let_def)
    moreover from this False "1.prems"
    have "sample_multiplier buf (buf_idx + 1) (buf ! buf_idx) = Some (f1, buf_idx1)"
      by (subst (asm) sample_multiplier.simps) (auto simp: Let_def)
    ultimately show ?thesis
      using "1.IH"[OF refl False] by simp
  qed
qed

lemma valid_pair_square:
  assumes "f \<noteq> 0" and "f < modulo"
  shows "valid_pair [mul_mod_fast f f mod modulo, f]"
proof -
  have f: "unat f < 2305843009213693951"
    using assms(2) by (simp add: word_less_nat_alt unat_modulo)
  have f0: "0 < unat f" using assms(1) by (simp add: unat_gt_0)
  have "unat f * unat f \<le> 2305843009213693951 * 2305843009213693951"
    using f by (intro mult_le_mono) simp_all
  then have small: "unat f * unat f < 2 ^ 125" by simp
  have "unat (mul_mod_fast f f mod modulo) = unat (mul_mod_fast f f) mod 2305843009213693951"
    by (simp add: unat_mod unat_modulo)
  also have "\<dots> = unat (mul_mod_fast f f) mod 18446744073709551608 mod 2305843009213693951"
    by (rule mod_mod_cancel[symmetric]) simp
  also have "\<dots> = (unat f * unat f) mod 18446744073709551608 mod 2305843009213693951"
    using mul_mod_fast_unat_mod[OF small] by simp
  also have "\<dots> = (unat f * unat f) mod 2305843009213693951"
    by (rule mod_mod_cancel) simp
  finally show ?thesis
    using f f0 by (simp add: valid_pair_def power2_eq_square)
qed

lemma prepare_poly_True:
  assumes "prepare_poly buf buf_idx i params = (True, buf_idx1, params1)"
    and "length (poly params) = 2"
  shows "ph params1 = ph params \<and> length (poly params1) = 2 \<and>
         (\<forall>j<2. (i \<le> j \<longrightarrow> valid_pair (poly params1 ! j)) \<and>
                 (j < i \<longrightarrow> poly params1 ! j = poly params ! j))"
  using assms
proof (induction buf buf_idx i params rule: prepare_poly.induct)
  case (1 buf buf_idx i params)
  show ?case
  proof (cases "i < 2")
    case False
    then show ?thesis
      using "1.prems" by (subst (asm) prepare_poly.simps) auto
  next
    case True
    from True "1.prems"(1) obtain f idx where
      sm: "sample_multiplier buf buf_idx (poly params ! i ! 1) = Some (f, idx)"
      by (subst (asm) prepare_poly.simps) (auto split: option.splits)
    define p0 where "p0 = mul_mod_fast f f mod modulo"
    define params2 where "params2 = params\<lparr>poly := (poly params)[i := [p0, f]]\<rparr>"
    have rec: "prepare_poly buf idx (i + 1) params2 = (True, buf_idx1, params1)"
      using True "1.prems"(1) sm
      by (subst (asm) prepare_poly.simps) (simp add: Let_def p0_def params2_def)
    have len2: "length (poly params2) = 2"
      using "1.prems"(2) by (simp add: params2_def)
    have ih: "ph params1 = ph params2 \<and> length (poly params1) = 2 \<and>
         (\<forall>j<2. (i + 1 \<le> j \<longrightarrow> valid_pair (poly params1 ! j)) \<and>
                 (j < i + 1 \<longrightarrow> poly params1 ! j = poly params2 ! j))"
      using "1.IH"[OF True sm refl refl refl] rec len2
      by (simp add: p0_def params2_def)
    have vp: "valid_pair [p0, f]"
      unfolding p0_def using sample_multiplier_Some[OF sm] by (intro valid_pair_square) simp_all
    have at_i: "poly params2 ! i = [p0, f]"
      using True "1.prems"(2) by (simp add: params2_def)
    have other: "j < i \<Longrightarrow> poly params2 ! j = poly params ! j" for j
      by (simp add: params2_def)
    show ?thesis
    proof (intro conjI allI impI)
      show "ph params1 = ph params" using ih by (simp add: params2_def)
      show "length (poly params1) = 2" using ih by simp
    next
      fix j assume j: "j < 2" and ij: "i \<le> j"
      show "valid_pair (poly params1 ! j)"
      proof (cases "j = i")
        case True
        then show ?thesis using ih j at_i vp by simp
      next
        case False
        then show ?thesis using ih j ij by simp
      qed
    next
      fix j assume j: "j < 2" and ji: "j < i"
      then show "poly params1 ! j = poly params ! j" using ih other by simp
    qed
  qed
qed

lemma value_is_repeated_iff:
  "n \<le> length vs \<Longrightarrow> value_is_repeated vs n x = (x \<in> set (take n vs))"
proof (induction n)
  case 0
  then show ?case by simp
next
  case (Suc n)
  then show ?case by (auto simp: take_Suc_conv_app_nth)
qed

lemma replace_repeated_True:
  assumes "replace_repeated buf buf_idx i noise = (True, buf_idx1, noise1)"
  shows "length noise1 = length noise \<and> take i noise1 = take i noise \<and>
         \<not> value_is_repeated noise1 i (noise1 ! i)"
  using assms
proof (induction buf buf_idx i noise rule: replace_repeated.induct)
  case (1 buf buf_idx i noise)
  show ?case
  proof (cases "value_is_repeated noise i (noise ! i)")
    case False
    then show ?thesis
      using "1.prems" by (subst (asm) replace_repeated.simps) auto
  next
    case True
    then have nb: "\<not> length buf \<le> buf_idx"
      using "1.prems" by (subst (asm) replace_repeated.simps) auto
    then have rec: "replace_repeated buf (buf_idx + 1) i (noise[i := buf ! buf_idx])
        = (True, buf_idx1, noise1)"
      using True "1.prems" by (subst (asm) replace_repeated.simps) auto
    show ?thesis
      using "1.IH"[OF True nb rec] by simp
  qed
qed

lemma prepare_ph_True:
  assumes "prepare_ph buf buf_idx i noise = (True, noise1)"
    and "length noise = PH_TABLE_SIZE" and "i \<le> PH_TABLE_SIZE"
    and "distinct (take i noise)"
  shows "length noise1 = PH_TABLE_SIZE \<and> distinct noise1"
  using assms
proof (induction buf buf_idx i noise rule: prepare_ph.induct)
  case (1 buf buf_idx i noise)
  show ?case
  proof (cases "i < PH_TABLE_SIZE")
    case False
    then have "noise1 = noise" and "i = PH_TABLE_SIZE"
      using "1.prems" by (subst (asm) prepare_ph.simps, auto)+
    then show ?thesis using "1.prems" by simp
  next
    case True
    obtain ok idx noise2 where rr: "replace_repeated buf buf_idx i noise = (ok, idx, noise2)"
      by (cases "replace_repeated buf buf_idx i noise") auto
    have ok: "ok"
      using True "1.prems"(1) rr by (subst (asm) prepare_ph.simps) (auto split: bool.splits)
    have rec: "prepare_ph buf idx (i + 1) noise2 = (True, noise1)"
      using True "1.prems"(1) rr ok by (subst (asm) prepare_ph.simps) auto
    note r = replace_repeated_True[OF rr[unfolded ok[THEN eqTrueI]]]
    have len: "length noise2 = PH_TABLE_SIZE" using r "1.prems"(2) by simp
    have nrep: "\<not> value_is_repeated noise2 i (noise2 ! i)" using r by simp
    have notin: "noise2 ! i \<notin> set (take i noise2)"
      using nrep value_is_repeated_iff[of i noise2 "noise2 ! i"] True len by simp
    have tk: "take i noise2 = take i noise" using r by simp
    have app: "take (i + 1) noise2 = take i noise2 @ [noise2 ! i]"
      using True len by (simp add: take_Suc_conv_app_nth)
    have d: "distinct (take (i + 1) noise2)"
      unfolding app using notin "1.prems"(4) tk by simp
    have i1: "i + 1 \<le> PH_TABLE_SIZE" using True by simp
    show ?thesis
      by (rule "1.IH"[OF True rr[unfolded ok[THEN eqTrueI], symmetric] refl refl rec len i1 d])
  qed
qed

text \<open>
  C4. For every input key (a structure with two polynomial pairs and a noise table of the
  declared size), if \<open>umash_params_prepare\<close> returns true then the key it leaves
  satisfies the prepared-key invariants: each base multiplier is strictly between 0 and
  \<open>2^61 - 1\<close>, each pre-squared slot is the square of its base multiplier modulo
  \<open>2^61 - 1\<close>, and the noise words are pairwise distinct.
\<close>

theorem umash_params_prepare_ok:
  assumes "length (poly params) = 2" and "length (ph params) = PH_TABLE_SIZE"
    and "umash_params_prepare params = (True, params1)"
  shows "prepared params1"
proof -
  define buf where "buf = [poly params ! 0 ! 0, poly params ! 1 ! 0]"
  obtain ok idx params2 where pp: "prepare_poly buf 0 0 params = (ok, idx, params2)"
    by (cases "prepare_poly buf 0 0 params") auto
  have ok: "ok"
    using assms(3) pp
    by (auto simp: umash_params_prepare_def Let_def buf_def split: bool.splits prod.splits)
  obtain ok2 noise where pph: "prepare_ph buf idx 0 (ph params2) = (ok2, noise)"
    by (cases "prepare_ph buf idx 0 (ph params2)") auto
  have res: "ok2 \<and> params1 = params2\<lparr>ph := noise\<rparr>"
    using assms(3) pp pph ok
    by (auto simp: umash_params_prepare_def Let_def buf_def split: bool.splits prod.splits)
  note p = prepare_poly_True[OF pp[unfolded ok[THEN eqTrueI]] assms(1)]
  have len: "length (ph params2) = PH_TABLE_SIZE" using p assms(2) by simp
  have "length noise = PH_TABLE_SIZE \<and> distinct noise"
    using prepare_ph_True[of buf idx 0 "ph params2" noise] pph res len by simp
  moreover have "list_all valid_pair (poly params2)"
    using p by (auto simp: list_all_length)
  ultimately show ?thesis
    using p res by (simp add: prepared_def)
qed

theorem umash_params_prepare_ok_witness:
  "length (poly example_raw_key) = 2 \<and> length (ph example_raw_key) = PH_TABLE_SIZE \<and>
   umash_params_prepare example_raw_key = (True, example_prepared_key) \<and>
   prepared example_prepared_key"
proof -
  have h1: "length (poly example_raw_key) = 2"
    by (simp add: example_raw_key_def)
  have h2: "length (ph example_raw_key) = PH_TABLE_SIZE"
    by (simp add: example_raw_key_def example_noise_def example_sizes)
  have h3: "umash_params_prepare example_raw_key = (True, example_prepared_key)"
    by (simp add: umash_params_prepare_def example_raw_key_def example_prepared_key_def
        example_noise_def prepare_poly.simps sample_multiplier.simps prepare_ph.simps replace_repeated.simps
        modulo_def example_sizes mul_mod_fast_def add_mod_fast_def uaddll_overflow_def
        Let_def)
  show ?thesis
    using h1 h2 h3 umash_params_prepare_ok[OF h1 h2 h3] by blast
qed

subsection \<open>Fingerprint and the noise table\<close>

lemma ph_last_block_loop_value:
  "fst (ph_last_block_loop params mem block e i acc) =
     (if i < e then
        fst (ph_last_block_loop params mem (block + 16) e (i + 2)
               (acc XOR mm_clmulepi64_si128 (fst (load_u128 mem block) XOR load_params params i)
                          (fst (load_u128 mem block) XOR load_params params i) 1))
      else (acc, i))"
  by (subst ph_last_block_loop.simps) (simp add: Let_def case_prod_beta)

lemma ph_last_block_value:
  assumes "fst (ph_last_block_loop params mem block
             (size_t_sub n_bytes (1 + size_t_sub n_bytes 1 mod 16) div 8) 0
             (mm_cvtsi64_si128 seed)) = (acc, i)"
  shows "fst (ph_last_block params seed mem block n_bytes) =
     ph_of_lane (acc XOR mm_clmulepi64_si128
       (mm_cvtsi64_si128 (fst (load_u64 mem (block + int n_bytes - 16)) XOR params ! i))
       (mm_cvtsi64_si128 (fst (load_u64 mem (block + int n_bytes - 16 + 8))
          XOR params ! (i + 1))) 0)"
  using assms by (simp add: ph_last_block_def Let_def case_prod_beta)

lemma umash_long_value:
  assumes "n_bytes \<le> 256"
    and "fst (ph_last_block ph_params (seed XOR ucast (word_of_nat n_bytes :: u8))
           mem data n_bytes) = \<lparr>bits = [b0, b1]\<rparr>"
  shows "fst (umash_long multipliers ph_params seed mem data n_bytes) =
     finalize (horner_double_update 0 (multipliers ! 0) (multipliers ! 1) b0 b1)"
  using assms
  by (subst umash_long_def, subst umash_long_loop.simps)
    (simp add: BLOCK_SIZE_def UMASH_PH_PARAM_COUNT_def Let_def case_prod_beta)

lemma umash_fprint_long_value:
  "16 < n_bytes \<Longrightarrow>
   fst (umash_fprint params seed mem data n_bytes) =
     \<lparr>hash = [fst (umash_long (poly params ! 0) (ph params) seed mem data n_bytes),
              fst (umash_long (poly params ! 1) (drop UMASH_PH_TOEPLITZ_SHIFT (ph params))
                     seed mem data n_bytes)]\<rparr>"
  by (simp add: umash_fprint_def fprint_loop_unrolled Let_def case_prod_beta)

lemmas clmul64_numeral =
  clmul64_def[of "numeral a" "numeral b"] clmul64_def[of 1 "numeral b"]
  clmul64_def[of "numeral a" 1] clmul64_def[of 1 1] for a b

lemma mem_zero: "mem_of (replicate n 0) a = 0"
  by (auto simp: mem_of_def)

lemma load_zero:
  "fst (load_u128 (mem_of (replicate n 0)) a) = 0"
  "fst (load_u64 (mem_of (replicate n 0)) a) = 0"
  by (simp_all add: load_u128_def load_u64_def load_bytes_def le_bytes_def mem_zero upt_rec)

lemmas eval_ph =
  ph_last_block_loop_value load_zero load_params_def mm_clmulepi64_si128_def
  mm_cvtsi64_si128_def clmul64_numeral ph_of_lane_def size_t_sub_def upt_rec
  bit_Suc_0_iff

lemmas eval_horner =
  finalize_def horner_double_update_def add_mod_fast_def add_mod_slow_def
  add_mod_slow_slow_path_def uaddll_overflow_def mul_mod_fast_def Let_def

lemma example_changed_noise:
  "ph example_key_changed =
     [1, 2, 3, 4, 100, 6, 7, 8, 9, 10, 11, 12] @ drop 12 example_noise"
  by (simp add: example_key_changed_def example_key_def example_noise_def)

text \<open>The four hashes of 33 zero bytes: both halves, under both keys.\<close>

lemma example_hash0:
  "fst (umash_long [4, 2] (ph example_key) 0 (mem_of (replicate 33 0)) 0 33)
     = 17255668668194469868"
proof -
  have l: "fst (ph_last_block_loop (ph example_key) (mem_of (replicate 33 0)) 0 4 0
          (mm_cvtsi64_si128 33)) = (47, 4)"
    by (simp add: eval_ph example_key_def example_noise_def)
  have b: "fst (ph_last_block (ph example_key) 33 (mem_of (replicate 33 0)) 0 33)
      = \<lparr>bits = [49, 0]\<rparr>"
    using ph_last_block_value[of "ph example_key" "mem_of (replicate 33 0)" 0 33 33 47 4] l
    by (simp add: eval_ph example_key_def example_noise_def)
  show ?thesis
    using umash_long_value[of 33 "ph example_key" 0 "mem_of (replicate 33 0)" 0 49 0 "[4, 2]"] b
    by (simp add: eval_horner)
qed

lemma example_hash1:
  "fst (umash_long [9, 3] (drop 4 (ph example_key)) 0 (mem_of (replicate 33 0)) 0 33)
     = 10160420538391958871"
proof -
  have l: "fst (ph_last_block_loop (drop 4 (ph example_key)) (mem_of (replicate 33 0)) 0 4 0
          (mm_cvtsi64_si128 33)) = (7, 4)"
    by (simp add: eval_ph example_key_def example_noise_def)
  have b: "fst (ph_last_block (drop 4 (ph example_key)) 33 (mem_of (replicate 33 0)) 0 33)
      = \<lparr>bits = [93, 0]\<rparr>"
    using ph_last_block_value[of "drop 4 (ph example_key)" "mem_of (replicate 33 0)" 0 33 33
        7 4] l
    by (simp add: eval_ph example_key_def example_noise_def)
  show ?thesis
    using umash_long_value[of 33 "drop 4 (ph example_key)" 0 "mem_of (replicate 33 0)" 0 93 0
        "[9, 3]"] b
    by (simp add: eval_horner)
qed

lemma example_changed_hash0:
  "fst (umash_long [4, 2] (ph example_key_changed) 0 (mem_of (replicate 33 0)) 0 33)
     = 17613582697249438964"
proof -
  have l: "fst (ph_last_block_loop (ph example_key_changed) (mem_of (replicate 33 0)) 0 4 0
          (mm_cvtsi64_si128 33)) = (47, 4)"
    by (simp add: eval_ph example_changed_noise example_noise_def)
  have b: "fst (ph_last_block (ph example_key_changed) 33 (mem_of (replicate 33 0)) 0 33)
      = \<lparr>bits = [375, 0]\<rparr>"
    using ph_last_block_value[of "ph example_key_changed" "mem_of (replicate 33 0)" 0 33 33
        47 4] l
    by (simp add: eval_ph example_changed_noise example_noise_def)
  show ?thesis
    using umash_long_value[of 33 "ph example_key_changed" 0 "mem_of (replicate 33 0)" 0 375 0
        "[4, 2]"] b
    by (simp add: eval_horner)
qed

lemma example_changed_hash1:
  "fst (umash_long [9, 3] (drop 4 (ph example_key_changed)) 0 (mem_of (replicate 33 0)) 0 33)
     = 10686356095124194577"
proof -
  have l: "fst (ph_last_block_loop (drop 4 (ph example_key_changed))
          (mem_of (replicate 33 0)) 0 4 0 (mm_cvtsi64_si128 33)) = (321, 4)"
    by (simp add: eval_ph example_changed_noise example_noise_def)
  have b: "fst (ph_last_block (drop 4 (ph example_key_changed)) 33
          (mem_of (replicate 33 0)) 0 33) = \<lparr>bits = [283, 0]\<rparr>"
    using ph_last_block_value[of "drop 4 (ph example_key_changed)" "mem_of (replicate 33 0)"
        0 33 33 321 4] l
    by (simp add: eval_ph example_changed_noise example_noise_def)
  show ?thesis
    using umash_long_value[of 33 "drop 4 (ph example_key_changed)" 0
        "mem_of (replicate 33 0)" 0 283 0 "[9, 3]"] b
    by (simp add: eval_horner)
qed

lemma example_keys_prepared: "prepared example_key" "prepared example_key_changed"
  by (simp_all add: prepared_def valid_pair_def example_key_changed_def example_key_def
      example_noise_def example_sizes)

text \<open>
  C8 as stated fails: for an input of 33 bytes both halves of the fingerprint use noise
  word 4 (the first half in its final pair, the second half in its first pair). Two
  prepared keys that differ only in noise word 4 give fingerprints that differ in both
  halves, so no two disjoint sets of noise indices can carry the two halves.
\<close>

theorem fprint_noise_overlap_counterexample:
  "prepared example_key \<and> prepared example_key_changed \<and>
   poly example_key_changed = poly example_key \<and>
   ph example_key_changed = (ph example_key)[4 := 100] \<and>
   hash (fst (umash_fprint example_key 0 (mem_of (replicate 33 0)) 0 33)) ! 0
     \<noteq> hash (fst (umash_fprint example_key_changed 0 (mem_of (replicate 33 0)) 0 33)) ! 0 \<and>
   hash (fst (umash_fprint example_key 0 (mem_of (replicate 33 0)) 0 33)) ! 1
     \<noteq> hash (fst (umash_fprint example_key_changed 0 (mem_of (replicate 33 0)) 0 33)) ! 1"
proof -
  have p: "poly example_key = [[4, 2], [9, 3]]" "poly example_key_changed = [[4, 2], [9, 3]]"
    by (simp_all add: example_key_changed_def example_key_def)
  have a: "fst (umash_fprint example_key 0 (mem_of (replicate 33 0)) 0 33)
      = \<lparr>hash = [17255668668194469868, 10160420538391958871]\<rparr>"
    using example_hash0 example_hash1
    by (simp add: umash_fprint_long_value p UMASH_PH_TOEPLITZ_SHIFT_def)
  have b: "fst (umash_fprint example_key_changed 0 (mem_of (replicate 33 0)) 0 33)
      = \<lparr>hash = [17613582697249438964, 10686356095124194577]\<rparr>"
    using example_changed_hash0 example_changed_hash1
    by (simp add: umash_fprint_long_value p UMASH_PH_TOEPLITZ_SHIFT_def)
  show ?thesis
    unfolding a b using example_keys_prepared
    by (simp add: example_key_changed_def)
qed

lemma last_block_pairs:
  assumes "1 \<le> n_bytes" and "n_bytes \<le> 256"
  shows "size_t_sub n_bytes (1 + size_t_sub n_bytes 1 mod 16) div 8
           = 2 * ((n_bytes - 1) div 16)"
proof -
  define r where "r = 1 + (n_bytes - 1) mod 16"
  have s1: "size_t_sub n_bytes 1 = n_bytes - 1"
    using assms by (intro size_t_sub_exact) simp_all
  have dm: "16 * ((n_bytes - 1) div 16) + (n_bytes - 1) mod 16 = n_bytes - 1"
    by (rule mult_div_mod_eq)
  have rn: "r \<le> n_bytes" using assms dm unfolding r_def by linarith
  have s2: "size_t_sub n_bytes r = n_bytes - r"
    using assms rn by (intro size_t_sub_exact) simp_all
  have q: "n_bytes - r = 16 * ((n_bytes - 1) div 16)"
    unfolding r_def using dm assms by linarith
  show ?thesis
    unfolding s1 r_def[symmetric] s2 q by simp
qed

lemma umash_medium_noise_words:
  "ph_params ! 0 = ph_params' ! 0 \<Longrightarrow> ph_params ! 1 = ph_params' ! 1 \<Longrightarrow>
   umash_medium multipliers ph_params seed mem data n_bytes
     = umash_medium multipliers ph_params' seed mem data n_bytes"
  by (simp add: umash_medium_def)

lemma load_params_agree:
  "\<forall>j<b. params ! j = params' ! j \<Longrightarrow> i + 1 < b \<Longrightarrow>
   load_params params i = load_params params' i"
  by (simp add: load_params_def)

lemma ph_one_block_loop_step:
  "i < UMASH_PH_PARAM_COUNT \<Longrightarrow>
   ph_one_block_loop params mem block i acc =
     (fst (ph_one_block_loop params mem (block + 16) (i + 2)
             (acc XOR mm_clmulepi64_si128 (fst (load_u128 mem block) XOR load_params params i)
                        (fst (load_u128 mem block) XOR load_params params i) 1)),
      snd (load_u128 mem block) @
      snd (ph_one_block_loop params mem (block + 16) (i + 2)
             (acc XOR mm_clmulepi64_si128 (fst (load_u128 mem block) XOR load_params params i)
                        (fst (load_u128 mem block) XOR load_params params i) 1)))"
  by (subst ph_one_block_loop.simps) (simp add: Let_def case_prod_beta)

lemma ph_one_block_loop_stop:
  "\<not> i < UMASH_PH_PARAM_COUNT \<Longrightarrow> ph_one_block_loop params mem block i acc = (acc, [])"
  by (subst ph_one_block_loop.simps) simp

lemma ph_one_block_loop_agree:
  "\<forall>j<UMASH_PH_PARAM_COUNT. params ! j = params' ! j \<Longrightarrow> even i \<Longrightarrow>
   ph_one_block_loop params mem block i acc = ph_one_block_loop params' mem block i acc"
proof (induction params mem block i acc rule: ph_one_block_loop.induct)
  case (1 params mem block i acc)
  show ?case
  proof (cases "i < UMASH_PH_PARAM_COUNT")
    case False
    then show ?thesis by (simp add: ph_one_block_loop_stop)
  next
    case True
    then have "i + 1 < UMASH_PH_PARAM_COUNT"
      using "1.prems"(2) by (auto simp: UMASH_PH_PARAM_COUNT_def elim!: evenE)
    then have lp: "load_params params i = load_params params' i"
      using "1.prems"(1) by (intro load_params_agree)
    have ev: "even (i + 2)" using "1.prems"(2) by simp
    note ih = "1.IH"[OF True refl prod.collapse refl refl refl "1.prems"(1) ev]
    show ?thesis
      using ih by (simp add: ph_one_block_loop_step[OF True] lp)
  qed
qed

lemma ph_one_block_agree:
  "\<forall>j<UMASH_PH_PARAM_COUNT. params ! j = params' ! j \<Longrightarrow>
   ph_one_block params seed mem block = ph_one_block params' seed mem block"
  using ph_one_block_loop_agree[of params params' 0 mem block "mm_cvtsi64_si128 seed"]
  by (simp add: ph_one_block_def)

lemma ph_last_block_loop_step:
  "i < e \<Longrightarrow>
   ph_last_block_loop params mem block e i acc =
     (fst (ph_last_block_loop params mem (block + 16) e (i + 2)
             (acc XOR mm_clmulepi64_si128 (fst (load_u128 mem block) XOR load_params params i)
                        (fst (load_u128 mem block) XOR load_params params i) 1)),
      snd (load_u128 mem block) @
      snd (ph_last_block_loop params mem (block + 16) e (i + 2)
             (acc XOR mm_clmulepi64_si128 (fst (load_u128 mem block) XOR load_params params i)
                        (fst (load_u128 mem block) XOR load_params params i) 1)))"
  by (subst ph_last_block_loop.simps) (simp add: Let_def case_prod_beta)

lemma ph_last_block_loop_stop:
  "\<not> i < e \<Longrightarrow> ph_last_block_loop params mem block e i acc = ((acc, i), [])"
  by (subst ph_last_block_loop.simps) simp

lemma ph_last_block_loop_agree:
  "\<forall>j<b. params ! j = params' ! j \<Longrightarrow> even i \<Longrightarrow> even e \<Longrightarrow> e \<le> b \<Longrightarrow>
   ph_last_block_loop params mem block e i acc = ph_last_block_loop params' mem block e i acc"
proof (induction params mem block e i acc rule: ph_last_block_loop.induct)
  case (1 params mem block e i acc)
  show ?case
  proof (cases "i < e")
    case False
    then show ?thesis by (simp add: ph_last_block_loop_stop)
  next
    case True
    then have "i + 1 < b"
      using "1.prems"(2,3,4) by (auto elim!: evenE)
    then have lp: "load_params params i = load_params params' i"
      using "1.prems"(1) by (intro load_params_agree)
    have ev: "even (i + 2)" using "1.prems"(2) by simp
    note ih = "1.IH"[OF True refl prod.collapse refl refl refl "1.prems"(1) ev "1.prems"(3,4)]
    show ?thesis
      using ih by (simp add: ph_last_block_loop_step[OF True] lp)
  qed
qed

lemma ph_last_block_loop_index:
  "even i \<Longrightarrow> even e \<Longrightarrow> i \<le> e \<Longrightarrow>
   snd (fst (ph_last_block_loop params mem block e i acc)) = e"
proof (induction params mem block e i acc rule: ph_last_block_loop.induct)
  case (1 params mem block e i acc)
  show ?case
  proof (cases "i < e")
    case False
    then show ?thesis using "1.prems" by (simp add: ph_last_block_loop_stop)
  next
    case True
    then have le: "i + 2 \<le> e"
      using "1.prems" by (auto elim!: evenE)
    have ev: "even (i + 2)" using "1.prems"(1) by simp
    note ih = "1.IH"[OF True refl prod.collapse refl refl refl ev "1.prems"(2) le]
    show ?thesis
      using ih by (simp add: ph_last_block_loop_step[OF True])
  qed
qed

lemma ph_last_block_agree:
  assumes "1 \<le> n_bytes" and "n_bytes \<le> 256"
    and "\<forall>j < 2 * ((n_bytes - 1) div 16) + 2. params ! j = params' ! j"
  shows "ph_last_block params seed mem block n_bytes
           = ph_last_block params' seed mem block n_bytes"
proof -
  define e where "e = 2 * ((n_bytes - 1) div 16)"
  have loop: "ph_last_block_loop params mem block e 0 (mm_cvtsi64_si128 seed)
      = ph_last_block_loop params' mem block e 0 (mm_cvtsi64_si128 seed)"
    using assms(3) by (intro ph_last_block_loop_agree[where b="e + 2"]) (simp_all add: e_def)
  have idx: "snd (fst (ph_last_block_loop params' mem block e 0 (mm_cvtsi64_si128 seed))) = e"
    by (intro ph_last_block_loop_index) (simp_all add: e_def)
  have w: "params ! e = params' ! e" "params ! Suc e = params' ! Suc e"
    using assms(3) by (simp_all add: e_def)
  have pairs: "size_t_sub n_bytes (Suc (size_t_sub n_bytes (Suc 0) mod 16)) div 8 = e"
    using last_block_pairs[OF assms(1,2)] by (simp add: e_def)
  show ?thesis
    by (simp add: ph_last_block_def Let_def case_prod_beta pairs loop idx w)
qed

lemma umash_long_loop_step:
  "BLOCK_SIZE < n_bytes \<Longrightarrow>
   umash_long_loop multipliers ph_params seed mem data n_bytes acc =
     (fst (umash_long_loop multipliers ph_params seed mem (data + int BLOCK_SIZE)
             (n_bytes - BLOCK_SIZE)
             (horner_double_update acc (multipliers ! 0) (multipliers ! 1)
                (bits (fst (ph_one_block ph_params seed mem data)) ! 0)
                (bits (fst (ph_one_block ph_params seed mem data)) ! 1))),
      snd (ph_one_block ph_params seed mem data) @
      snd (umash_long_loop multipliers ph_params seed mem (data + int BLOCK_SIZE)
             (n_bytes - BLOCK_SIZE)
             (horner_double_update acc (multipliers ! 0) (multipliers ! 1)
                (bits (fst (ph_one_block ph_params seed mem data)) ! 0)
                (bits (fst (ph_one_block ph_params seed mem data)) ! 1))))"
  by (subst umash_long_loop.simps) (simp add: Let_def case_prod_beta)

lemma umash_long_loop_stop:
  "\<not> BLOCK_SIZE < n_bytes \<Longrightarrow>
   umash_long_loop multipliers ph_params seed mem data n_bytes acc
     = ((acc, data, n_bytes), [])"
  by (subst umash_long_loop.simps) simp

lemma umash_long_loop_agree:
  "\<forall>j<UMASH_PH_PARAM_COUNT. ph_params ! j = ph_params' ! j \<Longrightarrow>
   umash_long_loop multipliers ph_params seed mem data n_bytes acc
     = umash_long_loop multipliers ph_params' seed mem data n_bytes acc"
proof (induction multipliers ph_params seed mem data n_bytes acc
    rule: umash_long_loop.induct)
  case (1 multipliers ph_params seed mem data n_bytes acc)
  show ?case
  proof (cases "BLOCK_SIZE < n_bytes")
    case False
    then show ?thesis by (simp add: umash_long_loop_stop)
  next
    case True
    have ob: "ph_one_block ph_params seed mem data = ph_one_block ph_params' seed mem data"
      using "1.prems" by (rule ph_one_block_agree)
    note ih = "1.IH"[OF True refl prod.collapse refl "1.prems"]
    show ?thesis
      using ih by (simp add: umash_long_loop_step[OF True] ob)
  qed
qed

lemma umash_long_loop_remaining:
  "1 \<le> n_bytes \<Longrightarrow>
   1 \<le> snd (snd (fst (umash_long_loop multipliers ph_params seed mem data n_bytes acc))) \<and>
   snd (snd (fst (umash_long_loop multipliers ph_params seed mem data n_bytes acc))) \<le> 256"
proof (induction multipliers ph_params seed mem data n_bytes acc
    rule: umash_long_loop.induct)
  case (1 multipliers ph_params seed mem data n_bytes acc)
  show ?case
  proof (cases "BLOCK_SIZE < n_bytes")
    case False
    then show ?thesis
      using "1.prems"
      by (simp add: umash_long_loop_stop BLOCK_SIZE_def UMASH_PH_PARAM_COUNT_def)
  next
    case True
    then have "1 \<le> n_bytes - BLOCK_SIZE" by simp
    note ih = "1.IH"[OF True refl prod.collapse refl this]
    show ?thesis
      using ih by (simp add: umash_long_loop_step[OF True])
  qed
qed

lemma umash_long_agree:
  assumes "1 \<le> n_bytes"
    and "\<forall>j < (if n_bytes \<le> 256 then 2 * ((n_bytes - 1) div 16) + 2
                   else UMASH_PH_PARAM_COUNT). ph_params ! j = ph_params' ! j"
  shows "umash_long multipliers ph_params seed mem data n_bytes
           = umash_long multipliers ph_params' seed mem data n_bytes"
proof (cases "n_bytes \<le> 256")
  case True
  then have stop: "\<not> BLOCK_SIZE < n_bytes"
    by (simp add: BLOCK_SIZE_def UMASH_PH_PARAM_COUNT_def)
  have "ph_last_block ph_params (seed XOR ucast (word_of_nat n_bytes :: u8)) mem data n_bytes
      = ph_last_block ph_params' (seed XOR ucast (word_of_nat n_bytes :: u8)) mem data n_bytes"
    using assms True by (intro ph_last_block_agree) simp_all
  then show ?thesis
    by (simp add: umash_long_def umash_long_loop_stop[OF stop])
next
  case False
  then have all: "\<forall>j<UMASH_PH_PARAM_COUNT. ph_params ! j = ph_params' ! j"
    using assms(2) by simp
  define st where "st = fst (umash_long_loop multipliers ph_params' seed mem data n_bytes 0)"
  define n1 where "n1 = snd (snd st)"
  have loop: "umash_long_loop multipliers ph_params seed mem data n_bytes 0
      = umash_long_loop multipliers ph_params' seed mem data n_bytes 0"
    using all by (rule umash_long_loop_agree)
  have n1: "1 \<le> n1 \<and> n1 \<le> 256"
    unfolding n1_def st_def using assms(1) by (rule umash_long_loop_remaining)
  have "(n1 - 1) div 16 \<le> 255 div 16"
    using n1 by (intro div_le_mono) linarith
  then have "2 * ((n1 - 1) div 16) + 2 \<le> UMASH_PH_PARAM_COUNT"
    by (simp add: UMASH_PH_PARAM_COUNT_def)
  then have "\<forall>j < 2 * ((n1 - 1) div 16) + 2. ph_params ! j = ph_params' ! j"
    using all by auto
  then have lb: "ph_last_block ph_params s mem d n1 = ph_last_block ph_params' s mem d n1"
    for s d
    using n1 by (intro ph_last_block_agree) simp_all
  show ?thesis
    by (simp add: umash_long_def loop Let_def case_prod_beta lb
        n1_def[symmetric, unfolded st_def])
qed


lemma list_all_upt: "list_all P [0..<b] = (\<forall>j<b. P j)"
  by (auto simp: list_all_iff)

lemma fprint_halves:
  "hash (fst (umash_fprint params seed mem data n_bytes)) ! 0 =
     (if n_bytes \<le> 8 then fst (umash_short (ph params) seed mem data n_bytes)
      else if n_bytes \<le> 16
        then fst (umash_medium (poly params ! 0) (ph params) seed mem data n_bytes)
      else fst (umash_long (poly params ! 0) (ph params) seed mem data n_bytes))"
  "hash (fst (umash_fprint params seed mem data n_bytes)) ! 1 =
     (if n_bytes \<le> 8
        then fst (umash_short (drop UMASH_PH_TOEPLITZ_SHIFT (ph params)) seed mem data n_bytes)
      else if n_bytes \<le> 16
        then fst (umash_medium (poly params ! 1) (drop UMASH_PH_TOEPLITZ_SHIFT (ph params))
                    seed mem data n_bytes)
      else fst (umash_long (poly params ! 1) (drop UMASH_PH_TOEPLITZ_SHIFT (ph params))
                  seed mem data n_bytes))"
  by (simp_all add: umash_fprint_def fprint_loop_unrolled Let_def case_prod_beta)

lemma slice_agree:
  assumes "multipliers = multipliers'"
    and "list_all (\<lambda>i. noise ! i = noise' ! i) (slice_indices n_bytes)"
  shows "(if n_bytes \<le> 8 then fst (umash_short noise seed mem data n_bytes)
      else if n_bytes \<le> 16 then fst (umash_medium multipliers noise seed mem data n_bytes)
      else fst (umash_long multipliers noise seed mem data n_bytes))
    = (if n_bytes \<le> 8 then fst (umash_short noise' seed mem data n_bytes)
      else if n_bytes \<le> 16 then fst (umash_medium multipliers' noise' seed mem data n_bytes)
      else fst (umash_long multipliers' noise' seed mem data n_bytes))"
proof -
  consider "n_bytes \<le> 8" | "8 < n_bytes" "n_bytes \<le> 16" | "16 < n_bytes"
    by linarith
  then show ?thesis
  proof cases
    case 1
    then have "noise ! n_bytes = noise' ! n_bytes"
      using assms(2) by (simp add: slice_indices_def)
    then show ?thesis
      using 1 umash_short_noise_word[of noise n_bytes noise' seed mem data] by simp
  next
    case 2
    then have "noise ! 0 = noise' ! 0" "noise ! 1 = noise' ! 1"
      using assms(2) by (simp_all add: slice_indices_def)
    then show ?thesis
      using 2 assms(1)
        umash_medium_noise_words[of noise noise' multipliers seed mem data n_bytes]
      by simp
  next
    case 3
    have "j \<in> set (slice_indices n_bytes)"
      if "j < (if n_bytes \<le> 256 then 2 * ((n_bytes - 1) div 16) + 2
               else UMASH_PH_PARAM_COUNT)" for j
      using that 3 by (auto simp: slice_indices_def split: if_splits)
    then have "\<forall>j < (if n_bytes \<le> 256 then 2 * ((n_bytes - 1) div 16) + 2
                   else UMASH_PH_PARAM_COUNT). noise ! j = noise' ! j"
      using assms(2) unfolding list_all_iff by blast
    then have "umash_long multipliers noise seed mem data n_bytes
        = umash_long multipliers noise' seed mem data n_bytes"
      using 3 by (intro umash_long_agree) simp_all
    then show ?thesis using 3 assms(1) by simp
  qed
qed

lemma slice_indices_disjoint:
  assumes "n_bytes \<le> 32"
  shows "set (slice_indices n_bytes)
           \<inter> (\<lambda>i. UMASH_PH_TOEPLITZ_SHIFT + i) ` set (slice_indices n_bytes) = {}"
proof -
  have "(n_bytes - 1) div 16 \<le> 31 div 16"
    using assms by (intro div_le_mono) linarith
  then have "2 * ((n_bytes - 1) div 16) + 2 \<le> 4" by simp
  then show ?thesis
    by (auto simp: slice_indices_def UMASH_PH_TOEPLITZ_SHIFT_def)
qed

lemma slice_indices_in_table:
  "set (slice_indices n_bytes) \<subseteq> {0..<UMASH_PH_PARAM_COUNT}"
proof (cases "16 < n_bytes \<and> n_bytes \<le> 256")
  case True
  then have "(n_bytes - 1) div 16 \<le> 255 div 16"
    by (intro div_le_mono) linarith
  then have "2 * ((n_bytes - 1) div 16) + 2 \<le> UMASH_PH_PARAM_COUNT"
    by (simp add: UMASH_PH_PARAM_COUNT_def)
  then show ?thesis using True by (auto simp: slice_indices_def)
next
  case False
  then show ?thesis by (auto simp: slice_indices_def UMASH_PH_PARAM_COUNT_def)
qed

text \<open>
  C8, amended. For every key, seed, input and length \<open>n\<close>, each half of the
  fingerprint depends on the noise table only through the words of its own slice: the
  first half through the words at \<open>slice_indices n\<close> of the slice starting at offset 0
  (and the first polynomial pair), the second half through the words at the same indices
  of the slice starting at the Toeplitz offset (and the second polynomial pair). These
  indices lie in \<open>0..31\<close>, so the two slices are \<open>0..31\<close> and \<open>4..35\<close>; the index
  sets of the two halves are disjoint for inputs of at most 32 bytes, and for longer inputs
  the slices overlap.
\<close>

theorem fprint_noise_slices:
  assumes "length (ph k) = PH_TABLE_SIZE" and "length (ph k') = PH_TABLE_SIZE"
  shows
    "(poly k ! 0 = poly k' ! 0 \<and> noise_agree 0 (slice_indices n_bytes) (ph k) (ph k') \<longrightarrow>
        hash (fst (umash_fprint k seed mem data n_bytes)) ! 0
          = hash (fst (umash_fprint k' seed mem data n_bytes)) ! 0) \<and>
     (poly k ! 1 = poly k' ! 1 \<and>
      noise_agree UMASH_PH_TOEPLITZ_SHIFT (slice_indices n_bytes) (ph k) (ph k') \<longrightarrow>
        hash (fst (umash_fprint k seed mem data n_bytes)) ! 1
          = hash (fst (umash_fprint k' seed mem data n_bytes)) ! 1) \<and>
     set (slice_indices n_bytes) \<subseteq> {0..<UMASH_PH_PARAM_COUNT} \<and>
     (n_bytes \<le> 32 \<longrightarrow>
        set (slice_indices n_bytes)
          \<inter> (\<lambda>i. UMASH_PH_TOEPLITZ_SHIFT + i) ` set (slice_indices n_bytes) = {})"
proof (intro conjI impI)
  assume a: "poly k ! 0 = poly k' ! 0 \<and> noise_agree 0 (slice_indices n_bytes) (ph k) (ph k')"
  then have "list_all (\<lambda>i. ph k ! i = ph k' ! i) (slice_indices n_bytes)"
    by (simp add: noise_agree_def)
  with a show "hash (fst (umash_fprint k seed mem data n_bytes)) ! 0
      = hash (fst (umash_fprint k' seed mem data n_bytes)) ! 0"
    unfolding fprint_halves(1) by (intro slice_agree) simp_all
next
  assume a: "poly k ! 1 = poly k' ! 1 \<and>
      noise_agree UMASH_PH_TOEPLITZ_SHIFT (slice_indices n_bytes) (ph k) (ph k')"
  have "UMASH_PH_TOEPLITZ_SHIFT + i \<le> PH_TABLE_SIZE" if "i \<in> set (slice_indices n_bytes)" for i
    using that slice_indices_in_table[of n_bytes] by (auto simp: PH_TABLE_SIZE_def)
  then have "list_all (\<lambda>i. drop UMASH_PH_TOEPLITZ_SHIFT (ph k) ! i
      = drop UMASH_PH_TOEPLITZ_SHIFT (ph k') ! i) (slice_indices n_bytes)"
    using a assms
    by (simp add: noise_agree_def list_all_iff nth_drop PH_TABLE_SIZE_def)
  with a show "hash (fst (umash_fprint k seed mem data n_bytes)) ! 1
      = hash (fst (umash_fprint k' seed mem data n_bytes)) ! 1"
    unfolding fprint_halves(2) by (intro slice_agree) simp_all
next
  show "set (slice_indices n_bytes) \<subseteq> {0..<UMASH_PH_PARAM_COUNT}"
    by (rule slice_indices_in_table)
next
  assume "n_bytes \<le> 32"
  then show "set (slice_indices n_bytes)
      \<inter> (\<lambda>i. UMASH_PH_TOEPLITZ_SHIFT + i) ` set (slice_indices n_bytes) = {}"
    by (rule slice_indices_disjoint)
qed

theorem fprint_noise_slices_witness:
  "length (ph example_key) = PH_TABLE_SIZE \<and> length (ph example_key_far) = PH_TABLE_SIZE \<and>
   poly example_key ! 0 = poly example_key_far ! 0 \<and>
   noise_agree 0 (slice_indices 20) (ph example_key) (ph example_key_far) \<and>
   poly example_key ! 1 = poly example_key_far ! 1 \<and>
   noise_agree UMASH_PH_TOEPLITZ_SHIFT (slice_indices 20) (ph example_key) (ph example_key_far) \<and>
   (20::nat) \<le> 32 \<and>
   hash (fst (umash_fprint example_key 7 (mem_of (replicate 20 1)) 0 20)) ! 0
     = hash (fst (umash_fprint example_key_far 7 (mem_of (replicate 20 1)) 0 20)) ! 0 \<and>
   hash (fst (umash_fprint example_key 7 (mem_of (replicate 20 1)) 0 20)) ! 1
     = hash (fst (umash_fprint example_key_far 7 (mem_of (replicate 20 1)) 0 20)) ! 1 \<and>
   set (slice_indices 20) \<subseteq> {0..<UMASH_PH_PARAM_COUNT} \<and>
   set (slice_indices 20) \<inter> (\<lambda>i. UMASH_PH_TOEPLITZ_SHIFT + i) ` set (slice_indices 20) = {}"
proof -
  have l1: "length (ph example_key) = PH_TABLE_SIZE"
    and l2: "length (ph example_key_far) = PH_TABLE_SIZE"
    by (simp_all add: example_key_far_def example_key_def example_noise_def example_sizes)
  have p0: "poly example_key ! 0 = poly example_key_far ! 0"
    and p1: "poly example_key ! 1 = poly example_key_far ! 1"
    by (simp_all add: example_key_far_def)
  have s: "slice_indices 20 = [0, 1, 2, 3]"
    by (simp add: slice_indices_def upt_rec)
  have a0: "noise_agree 0 (slice_indices 20) (ph example_key) (ph example_key_far)"
    and a1: "noise_agree UMASH_PH_TOEPLITZ_SHIFT (slice_indices 20) (ph example_key)
               (ph example_key_far)"
    unfolding s
    by (simp_all add: noise_agree_def example_key_far_def example_key_def example_noise_def
        example_sizes)
  have n: "(20::nat) \<le> 32" by simp
  note t = fprint_noise_slices[OF l1 l2, of 20 7 "mem_of (replicate 20 1)" 0]
  show ?thesis
    using l1 l2 p0 p1 a0 a1 n t by blast
qed

subsection \<open>Bytes loaded by the whole hash\<close>

text \<open>
  The long path only runs on inputs of more than 16 bytes, and its last block ends where
  the input ends. So the trailing 16-byte region of the last block, which may start before
  that block, never starts before the input: every hash loads only bytes of its input.
\<close>

lemma ph_one_block_loop_trace:
  "set (snd (ph_one_block_loop params mem block i acc))
     \<subseteq> {block ..< block + 16 * int ((UMASH_PH_PARAM_COUNT - i + 1) div 2)}"
proof (induction params mem block i acc rule: ph_one_block_loop.induct)
  case (1 params mem block i acc)
  show ?case
  proof (cases "i < UMASH_PH_PARAM_COUNT")
    case False
    then show ?thesis by (simp add: ph_one_block_loop_stop)
  next
    case True
    note ih = "1.IH"[OF True refl prod.collapse refl refl refl]
    have m: "int ((UMASH_PH_PARAM_COUNT - i + 1) div 2)
        = 1 + int ((UMASH_PH_PARAM_COUNT - (i + 2) + 1) div 2)"
      using True by (simp, arith)
    have "set (snd (load_u128 mem block)) \<subseteq> {block ..< block + 16}"
      by (auto simp: load_traces(5))
    then show ?thesis
      unfolding m using ih by (simp add: ph_one_block_loop_step[OF True]) auto
  qed
qed

lemma ph_one_block_trace:
  "set (snd (ph_one_block params seed mem block)) \<subseteq> {block ..< block + int BLOCK_SIZE}"
  using ph_one_block_loop_trace[of params mem block 0 "mm_cvtsi64_si128 seed"]
  by (simp add: ph_one_block_def case_prod_beta BLOCK_SIZE_def UMASH_PH_PARAM_COUNT_def)

lemma umash_long_loop_trace:
  "set (snd (umash_long_loop multipliers ph_params seed mem data n_bytes acc))
     \<subseteq> {data ..< data + int n_bytes} \<and>
   fst (snd (fst (umash_long_loop multipliers ph_params seed mem data n_bytes acc)))
     + int (snd (snd (fst (umash_long_loop multipliers ph_params seed mem data n_bytes acc))))
     = data + int n_bytes \<and>
   (if BLOCK_SIZE < n_bytes
    then data + int BLOCK_SIZE
           \<le> fst (snd (fst (umash_long_loop multipliers ph_params seed mem data n_bytes acc)))
    else fst (snd (fst (umash_long_loop multipliers ph_params seed mem data n_bytes acc)))
           = data)"
proof (induction multipliers ph_params seed mem data n_bytes acc
    rule: umash_long_loop.induct)
  case (1 multipliers ph_params seed mem data n_bytes acc)
  show ?case
  proof (cases "BLOCK_SIZE < n_bytes")
    case False
    then show ?thesis by (simp add: umash_long_loop_stop)
  next
    case True
    note ih = "1.IH"[OF True refl prod.collapse refl]
    have ob: "set (snd (ph_one_block ph_params seed mem data))
        \<subseteq> {data ..< data + int BLOCK_SIZE}"
      by (rule ph_one_block_trace)
    show ?thesis
      using ih ob True
      by (simp add: umash_long_loop_step[OF True] split: if_splits) auto
  qed
qed

lemma umash_long_reads:
  assumes "16 \<le> n_bytes"
  shows "set (snd (umash_long multipliers ph_params seed mem data n_bytes))
           \<subseteq> {data ..< data + int n_bytes}"
proof -
  define st where "st = fst (umash_long_loop multipliers ph_params seed mem data n_bytes 0)"
  define data1 where "data1 = fst (snd st)"
  define n1 where "n1 = snd (snd st)"
  note lt = umash_long_loop_trace[of multipliers ph_params seed mem data n_bytes 0,
      folded st_def, folded data1_def n1_def]
  have n1: "1 \<le> n1 \<and> n1 \<le> 256"
    unfolding n1_def st_def using assms by (intro umash_long_loop_remaining) simp
  have lo: "data \<le> data1 + min 0 (int n1 - 16)"
    using lt n1 assms by (auto simp: BLOCK_SIZE_def UMASH_PH_PARAM_COUNT_def split: if_splits)
  have hi: "data1 + int n1 = data + int n_bytes" using lt by simp
  have "set (snd (ph_last_block ph_params s mem data1 n1))
      \<subseteq> {data1 + min 0 (int n1 - 16) ..< data1 + int n1}" for s
    using ph_last_block_trace_bounds[of n1 ph_params s mem data1] n1 by simp
  then have last: "set (snd (ph_last_block ph_params s mem data1 n1))
      \<subseteq> {data ..< data + int n_bytes}" for s
    using lo hi by fastforce
  show ?thesis
    using lt last
    by (simp add: umash_long_def Let_def case_prod_beta st_def[symmetric]
        data1_def[symmetric] n1_def[symmetric])
qed

lemma umash_full_reads:
  "set (snd (umash_full params seed which mem data n_bytes)) \<subseteq> {data ..< data + int n_bytes}"
proof -
  consider "n_bytes \<le> 8" | "8 < n_bytes" "n_bytes \<le> 16" | "16 < n_bytes"
    by linarith
  then show ?thesis
  proof cases
    case 1
    have "list_all (\<lambda>n. set (snd (vec_to_u64 mem data n)) \<subseteq> {data ..< data + int n})
        [0, 1, 2, 3, 4, 5, 6, 7, 8]"
      by (simp add: vec_to_u64_trace upt_rec)
    then have "set (snd (vec_to_u64 mem data n_bytes)) \<subseteq> {data ..< data + int n_bytes}"
      using short_lengths[OF 1] unfolding list_all_iff by blast
    then show ?thesis
      using 1 by (simp add: umash_full_def umash_short_def Let_def case_prod_beta)
  next
    case 2
    then show ?thesis
      by (auto simp: umash_full_def umash_medium_def Let_def case_prod_beta load_traces)
  next
    case 3
    then show ?thesis
      using umash_long_reads[of n_bytes] by (simp add: umash_full_def Let_def)
  qed
qed

end
